theory Spec2Isabelle
  imports Main
begin

section \<open>Strings\<close>

text \<open>
  A Go string is a sequence of bytes, modelled as a \<open>string\<close> (a list of 8-bit
  characters). The library functions that the source applies to identifiers and paths
  (\<open>strings.ToLower\<close>, \<open>regexp\<close>) read a string rune by rune; on ASCII text a rune
  is a byte, and that is what the model writes out. The character classes of the
  source's patterns are ranges of ASCII, so a byte outside ASCII is in none of them,
  as no rune outside ASCII is; the identifiers that \<open>validateModelID\<close> accepts are
  ASCII (\<open>validateModelID_ascii\<close>). On other text the model stays exact for
  \<open>validateModelID\<close> and for the test of the suffix \<open>.gguf\<close>. \<open>generateSlug\<close> below is
  the function of the source on ASCII text, which is what \<open>Pull\<close> gives it;
  \<open>ImportExisting\<close> gives it the names of directories, and for these the function is
  modelled rune by rune as \<open>generateSlug_runes\<close>. The choice of the file in \<open>Pull\<close> is
  the reading of the source on ASCII.
\<close>

definition in_range :: "char \<Rightarrow> char \<Rightarrow> char \<Rightarrow> bool" where
  "in_range lo hi c = ((of_char lo :: nat) \<le> of_char c \<and> (of_char c :: nat) \<le> of_char hi)"

text \<open>\<open>strings.ToLower\<close> on ASCII: \<open>'A'..'Z'\<close> are moved by \<open>'a' - 'A'\<close>.\<close>

definition toLowerByte :: "char \<Rightarrow> char" where
  "toLowerByte c = (if in_range CHR ''A'' CHR ''Z'' c then char_of (of_char c + (32::nat)) else c)"

definition ToLower :: "string \<Rightarrow> string" where
  "ToLower s = map toLowerByte s"

text \<open>\<open>strings.ReplaceAll(s, old, new)\<close> for a one-byte \<open>old\<close>.\<close>

definition ReplaceAll :: "string \<Rightarrow> char \<Rightarrow> string \<Rightarrow> string" where
  "ReplaceAll s old new = concat (map (\<lambda>c. if c = old then new else [c]) s)"

text \<open>
  \<open>re.ReplaceAllString(s, repl)\<close> for a pattern that is a single character class and a
  replacement without \<open>$\<close>: every character of the class is a match of its own and is
  replaced by \<open>repl\<close>.
\<close>

definition ReplaceAllString :: "(char \<Rightarrow> bool) \<Rightarrow> string \<Rightarrow> string \<Rightarrow> string" where
  "ReplaceAllString cls s repl = concat (map (\<lambda>c. if cls c then repl else [c]) s)"

text \<open>\<open>strings.Trim(s, cutset)\<close>: drop the leading and the trailing characters of the cutset.\<close>

definition Trim :: "string \<Rightarrow> string \<Rightarrow> string" where
  "Trim s cutset =
     rev (dropWhile (\<lambda>c. c \<in> set cutset) (rev (dropWhile (\<lambda>c. c \<in> set cutset) s)))"

definition HasPrefix :: "string \<Rightarrow> string \<Rightarrow> bool" where
  "HasPrefix s p = (take (length p) s = p)"

definition HasSuffix :: "string \<Rightarrow> string \<Rightarrow> bool" where
  "HasSuffix s p = (length p \<le> length s \<and> drop (length s - length p) s = p)"

definition TrimPrefix :: "string \<Rightarrow> string \<Rightarrow> string" where
  "TrimPrefix s p = (if HasPrefix s p then drop (length p) s else s)"

section \<open>Regular expressions\<close>

text \<open>
  The fragment of the \<open>regexp\<close> syntax that the source uses, matched against the whole
  text (the source's pattern is anchored by \<open>^\<close> and \<open>$\<close>, which in Go without the
  \<open>m\<close> flag stand for the beginning and the end of the text). Matching is by
  derivatives.
\<close>

datatype regex =
    Never
  | Empty
  | Sym "char \<Rightarrow> bool"
  | Cat regex regex
  | Alt regex regex
  | Rep regex
  | Rep1 regex

fun nullable :: "regex \<Rightarrow> bool" where
  "nullable Never = False"
| "nullable Empty = True"
| "nullable (Sym p) = False"
| "nullable (Cat r s) = (nullable r \<and> nullable s)"
| "nullable (Alt r s) = (nullable r \<or> nullable s)"
| "nullable (Rep r) = True"
| "nullable (Rep1 r) = nullable r"

fun deriv :: "char \<Rightarrow> regex \<Rightarrow> regex" where
  "deriv c Never = Never"
| "deriv c Empty = Never"
| "deriv c (Sym p) = (if p c then Empty else Never)"
| "deriv c (Cat r s) =
     (if nullable r then Alt (Cat (deriv c r) s) (deriv c s) else Cat (deriv c r) s)"
| "deriv c (Alt r s) = Alt (deriv c r) (deriv c s)"
| "deriv c (Rep r) = Cat (deriv c r) (Rep r)"
| "deriv c (Rep1 r) = Cat (deriv c r) (Rep r)"

fun matches :: "regex \<Rightarrow> string \<Rightarrow> bool" where
  "matches r [] = nullable r"
| "matches r (c # cs) = matches (deriv c r) cs"

text \<open>The words a regular expression denotes.\<close>

definition conc :: "string set \<Rightarrow> string set \<Rightarrow> string set" where
  "conc A B = {u @ v | u v. u \<in> A \<and> v \<in> B}"

inductive_set star :: "string set \<Rightarrow> string set" for A :: "string set" where
  star_nil: "[] \<in> star A"
| star_app: "u \<in> A \<Longrightarrow> v \<in> star A \<Longrightarrow> u @ v \<in> star A"

fun lang :: "regex \<Rightarrow> string set" where
  "lang Never = {}"
| "lang Empty = {[]}"
| "lang (Sym p) = {[c] | c. p c}"
| "lang (Cat r s) = conc (lang r) (lang s)"
| "lang (Alt r s) = lang r \<union> lang s"
| "lang (Rep r) = star (lang r)"
| "lang (Rep1 r) = conc (lang r) (star (lang r))"

section \<open>Model identifiers and slugs\<close>

text \<open>The character classes \<open>[a-zA-Z0-9_-]\<close> and \<open>[a-zA-Z0-9_.-]\<close> of \<open>validateModelID\<close>.\<close>

definition cls_namespace :: "char \<Rightarrow> bool" where
  "cls_namespace c =
     (in_range CHR ''a'' CHR ''z'' c \<or> in_range CHR ''A'' CHR ''Z'' c \<or>
      in_range CHR ''0'' CHR ''9'' c \<or> c = CHR ''_'' \<or> c = CHR ''-'')"

definition cls_name :: "char \<Rightarrow> bool" where
  "cls_name c =
     (in_range CHR ''a'' CHR ''z'' c \<or> in_range CHR ''A'' CHR ''Z'' c \<or>
      in_range CHR ''0'' CHR ''9'' c \<or> c = CHR ''_'' \<or> c = CHR ''.'' \<or> c = CHR ''-'')"

text \<open>The pattern \<open>^[a-zA-Z0-9_-]+/[a-zA-Z0-9_.-]+$\<close>.\<close>

definition modelID_pattern :: regex where
  "modelID_pattern =
     Cat (Rep1 (Sym cls_namespace)) (Cat (Sym (\<lambda>c. c = CHR ''/'')) (Rep1 (Sym cls_name)))"

definition validateModelID :: "string \<Rightarrow> bool" where
  "validateModelID modelID = matches modelID_pattern modelID"

text \<open>The class \<open>[^a-z0-9-]\<close> of \<open>generateSlug\<close>.\<close>

definition cls_not_slug :: "char \<Rightarrow> bool" where
  "cls_not_slug c =
     (\<not> (in_range CHR ''a'' CHR ''z'' c \<or> in_range CHR ''0'' CHR ''9'' c \<or> c = CHR ''-''))"

definition generateSlug :: "string \<Rightarrow> string" where
  "generateSlug modelID =
     (let slug = ToLower modelID;
          slug = ReplaceAll slug CHR ''/'' ''-'';
          slug = ReplaceAllString cls_not_slug slug ''-'';
          slug = Trim slug ''-''
      in slug)"

text \<open>
  The slug as the specification words it: lower-case the identifier, replace \<open>/\<close> by
  \<open>-\<close>, delete every character outside \<open>[a-z0-9-]\<close>, trim the hyphens at both ends.
  This definition follows the specification, not the source; it is only compared with
  \<open>generateSlug\<close>.
\<close>

definition spec_generate_slug :: "string \<Rightarrow> string" where
  "spec_generate_slug ident =
     Trim (filter (\<lambda>c. \<not> cls_not_slug c) (ReplaceAll (ToLower ident) CHR ''/'' ''-'')) ''-''"

section \<open>Errors\<close>

text \<open>
  One constructor for each error the source makes with \<open>fmt.Errorf\<close>, one for each
  kind of error it receives from outside (the operating system, the database driver,
  the network, a decoder, a child process), and \<open>Wrap\<close> for \<open>fmt.Errorf("...: %w", err)\<close>.
\<close>

datatype error =
    InvalidModelID string
  | SlugNotFound string
  | SlugExists string
  | NoModelWithSlug string
  | ApiStatus nat
  | ApiReply nat string
  | NoQuantFile string
  | StartTimeout int
  | OSError
  | DriverError
  | ConstraintError
  | NetError
  | DecodeError
  | ExecError
  | ScanError
  | Wrap string error

section \<open>The metadata store\<close>

text \<open>
  The table \<open>models\<close> of \<open>initSchema\<close>, as the list of its rows in the order of their
  insertion. Times are seconds on some clock; \<open>LastUsed\<close> is a \<open>sql.NullTime\<close>.
\<close>

record Model =
  ID :: int
  Slug :: string
  ModelID :: string
  FileName :: string
  FilePath :: string
  FileSize :: string
  CreatedAt :: nat
  LastUsed :: "nat option"

type_synonym Store = "Model list"

text \<open>
  What the driver does with one \<open>Exec\<close> followed by \<open>RowsAffected\<close>: the statement runs
  and the count is read; or \<open>Exec\<close> returns an error and the table is as before; or the
  statement runs and \<open>RowsAffected\<close> returns an error. A query (and the \<open>Exec\<close> of
  \<open>AddModel\<close>, which reads no count) either runs or returns an error: a \<open>bool\<close>.
\<close>

datatype exec_outcome = Executes | ExecFails | CountFails

definition GetModelBySlug :: "bool \<Rightarrow> Store \<Rightarrow> string \<Rightarrow> error + Model" where
  "GetModelBySlug query_ok s slug =
     (if \<not> query_ok then Inl (Wrap ''querying model'' DriverError)
      else case find (\<lambda>m. Slug m = slug) s of
             None \<Rightarrow> Inl (SlugNotFound slug)
           | Some m \<Rightarrow> Inr m)"

text \<open>\<open>UPDATE models SET last_used = CURRENT_TIMESTAMP WHERE slug = ?\<close>\<close>

definition UpdateModelLastUsed ::
  "exec_outcome \<Rightarrow> nat \<Rightarrow> Store \<Rightarrow> string \<Rightarrow> error option \<times> Store" where
  "UpdateModelLastUsed oc now s slug =
     (if oc = ExecFails then (Some (Wrap ''updating last used'' DriverError), s)
      else let s' = map (\<lambda>m. if Slug m = slug then m\<lparr>LastUsed := Some now\<rparr> else m) s;
               rowsAffected = length (filter (\<lambda>m. Slug m = slug) s)
           in if oc = CountFails then (Some (Wrap ''checking rows affected'' DriverError), s')
              else if rowsAffected = 0 then (Some (NoModelWithSlug slug), s')
              else (None, s'))"

text \<open>
  The row id of an inserted row that names none: one more than the largest in the
  table, 1 in an empty table (SQLite's rule while ids stay below \<open>2^63 - 1\<close>).
\<close>

definition new_rowid :: "Store \<Rightarrow> int" where
  "new_rowid s = foldr max (map ID s) 0 + 1"

text \<open>
  \<open>INSERT OR REPLACE INTO models (slug, model_id, file_name, file_path, file_size)\<close>:
  the row id is chosen, the rows that the new row would collide with on the
  \<open>UNIQUE\<close> column \<open>slug\<close> are deleted, and the new row is inserted, with the default
  \<open>CURRENT_TIMESTAMP\<close> for \<open>created_at\<close> and \<open>NULL\<close> for \<open>last_used\<close>.
\<close>

definition AddModel ::
  "bool \<Rightarrow> nat \<Rightarrow> Store \<Rightarrow> string \<Rightarrow> string \<Rightarrow> string \<Rightarrow> string \<Rightarrow> string \<Rightarrow> error option \<times> Store" where
  "AddModel exec_ok now s slug modelID fileName filePath fileSize =
     (if \<not> exec_ok then (Some (Wrap ''inserting model'' DriverError), s)
      else (None,
            filter (\<lambda>m. Slug m \<noteq> slug) s @
            [\<lparr>ID = new_rowid s, Slug = slug, ModelID = modelID, FileName = fileName,
              FilePath = filePath, FileSize = fileSize, CreatedAt = now, LastUsed = None\<rparr>]))"

text \<open>\<open>DELETE FROM models WHERE slug = ?\<close>\<close>

definition RemoveModel :: "exec_outcome \<Rightarrow> Store \<Rightarrow> string \<Rightarrow> error option \<times> Store" where
  "RemoveModel oc s slug =
     (if oc = ExecFails then (Some (Wrap ''deleting model'' DriverError), s)
      else let s' = filter (\<lambda>m. Slug m \<noteq> slug) s;
               rowsAffected = length (filter (\<lambda>m. Slug m = slug) s)
           in if oc = CountFails then (Some (Wrap ''checking rows affected'' DriverError), s')
              else if rowsAffected = 0 then (Some (NoModelWithSlug slug), s')
              else (None, s'))"

text \<open>
  \<open>UPDATE models SET slug = ? WHERE slug = ?\<close>. The column is \<open>UNIQUE\<close>: when a row
  is to take a slug that another row has, the statement fails with a constraint error
  and changes nothing (SQLite's default conflict resolution).
\<close>

definition UpdateModelSlug ::
  "exec_outcome \<Rightarrow> Store \<Rightarrow> string \<Rightarrow> string \<Rightarrow> error option \<times> Store" where
  "UpdateModelSlug oc s oldSlug newSlug =
     (let rowsAffected = length (filter (\<lambda>m. Slug m = oldSlug) s);
          collides = (newSlug \<noteq> oldSlug \<and> rowsAffected > 0 \<and>
                      (rowsAffected > 1 \<or> list_ex (\<lambda>m. Slug m = newSlug) s))
      in if oc = ExecFails then (Some (Wrap ''updating model slug'' DriverError), s)
         else if collides then (Some (Wrap ''updating model slug'' ConstraintError), s)
         else let s' = map (\<lambda>m. if Slug m = oldSlug then m\<lparr>Slug := newSlug\<rparr> else m) s
              in if oc = CountFails then (Some (Wrap ''checking rows affected'' DriverError), s')
                 else if rowsAffected = 0 then (Some (NoModelWithSlug oldSlug), s')
                 else (None, s'))"

text \<open>The store's operations as values, and a run of them from the empty table.\<close>

datatype store_op =
    OpAddModel bool nat string string string string string
  | OpUpdateModelLastUsed exec_outcome nat string
  | OpRemoveModel exec_outcome string
  | OpUpdateModelSlug exec_outcome string string
  | OpAlias bool bool exec_outcome string string

section \<open>Removing and renaming a model\<close>

text \<open>
  The files on disk: the set of the paths that exist. \<open>os.Remove\<close> fails on a path that
  does not exist, and whenever the operating system refuses (\<open>allowed = False\<close>); a
  failed removal changes nothing.
\<close>

definition os_Remove :: "bool \<Rightarrow> string set \<Rightarrow> string \<Rightarrow> error option \<times> string set" where
  "os_Remove allowed files name =
     (if allowed \<and> name \<in> files then (None, files - {name}) else (Some OSError, files))"

definition Remove ::
  "bool \<Rightarrow> bool \<Rightarrow> exec_outcome \<Rightarrow> string set \<Rightarrow> Store \<Rightarrow> string \<Rightarrow> error option \<times> string set \<times> Store" where
  "Remove query_ok allowed oc files s slug =
     (case GetModelBySlug query_ok s slug of
        Inl err \<Rightarrow> (Some err, files, s)
      | Inr model \<Rightarrow>
          (case os_Remove allowed files (FilePath model) of
             (Some err, files') \<Rightarrow> (Some (Wrap ''removing file'' err), files', s)
           | (None, files') \<Rightarrow>
               (case RemoveModel oc s slug of
                  (Some err, s') \<Rightarrow> (Some err, files', s')
                | (None, s') \<Rightarrow> (None, files', s'))))"

definition Alias ::
  "bool \<Rightarrow> bool \<Rightarrow> exec_outcome \<Rightarrow> Store \<Rightarrow> string \<Rightarrow> string \<Rightarrow> error option \<times> Store" where
  "Alias old_query_ok new_query_ok oc s oldSlug newSlug =
     (case GetModelBySlug old_query_ok s oldSlug of
        Inl err \<Rightarrow> (Some err, s)
      | Inr _ \<Rightarrow>
          (case GetModelBySlug new_query_ok s newSlug of
             Inr _ \<Rightarrow> (Some (SlugExists newSlug), s)
           | Inl _ \<Rightarrow>
               (case UpdateModelSlug oc s oldSlug newSlug of
                  (Some err, s') \<Rightarrow> (Some err, s')
                | (None, s') \<Rightarrow> (None, s'))))"

fun apply_op :: "store_op \<Rightarrow> Store \<Rightarrow> Store" where
  "apply_op (OpAddModel ok now slug modelID fileName filePath fileSize) s =
     snd (AddModel ok now s slug modelID fileName filePath fileSize)"
| "apply_op (OpUpdateModelLastUsed oc now slug) s = snd (UpdateModelLastUsed oc now s slug)"
| "apply_op (OpRemoveModel oc slug) s = snd (RemoveModel oc s slug)"
| "apply_op (OpUpdateModelSlug oc oldSlug newSlug) s = snd (UpdateModelSlug oc s oldSlug newSlug)"
| "apply_op (OpAlias q1 q2 oc oldSlug newSlug) s = snd (Alias q1 q2 oc s oldSlug newSlug)"

definition run_ops :: "store_op list \<Rightarrow> Store \<Rightarrow> Store" where
  "run_ops ops s = foldl (\<lambda>s op. apply_op op s) s ops"

definition unique_slugs :: "Store \<Rightarrow> bool" where
  "unique_slugs s = distinct (map Slug s)"

section \<open>Paths and numbers as text\<close>

text \<open>\<open>strings.Split\<close> for a one-byte separator, and \<open>strings.Join\<close>.\<close>

fun Split :: "string \<Rightarrow> char \<Rightarrow> string list" where
  "Split [] sep = [[]]"
| "Split (c # cs) sep =
     (if c = sep then [] # Split cs sep
      else case Split cs sep of
             [] \<Rightarrow> [[c]]
           | x # xs \<Rightarrow> (c # x) # xs)"

fun strings_Join :: "string list \<Rightarrow> string \<Rightarrow> string" where
  "strings_Join [] sep = []"
| "strings_Join [x] sep = x"
| "strings_Join (x # y # ys) sep = x @ sep @ strings_Join (y # ys) sep"

text \<open>
  \<open>filepath.Clean\<close> on a system whose separator is \<open>/\<close>: empty and \<open>.\<close> elements
  are dropped, an inner \<open>..\<close> takes away the element before it, a \<open>..\<close> at the
  beginning of a rooted path is dropped, and the empty result is \<open>.\<close>.
\<close>

definition clean_step :: "bool \<Rightarrow> string list \<Rightarrow> string \<Rightarrow> string list" where
  "clean_step rooted stack elem =
     (if elem = [] \<or> elem = ''.'' then stack
      else if elem = ''..'' then
        (if stack \<noteq> [] \<and> last stack \<noteq> ''..'' then butlast stack
         else if rooted then stack
         else stack @ [elem])
      else stack @ [elem])"

definition Clean :: "string \<Rightarrow> string" where
  "Clean path =
     (let rooted = HasPrefix path ''/'';
          body = strings_Join (foldl (clean_step rooted) [] (Split path CHR ''/'')) ''/''
      in if rooted then ''/'' @ body else if body = [] then ''.'' else body)"

text \<open>\<open>filepath.Join\<close>: the elements from the first non-empty one on, joined and cleaned.\<close>

definition filepath_Join :: "string list \<Rightarrow> string" where
  "filepath_Join elem =
     (case dropWhile (\<lambda>e. e = []) elem of
        [] \<Rightarrow> []
      | es \<Rightarrow> Clean (strings_Join es ''/''))"

text \<open>\<open>filepath.Base\<close>: the last element of the path, trailing separators apart.\<close>

definition Base :: "string \<Rightarrow> string" where
  "Base path =
     (let p = rev (dropWhile (\<lambda>c. c = CHR ''/'') (rev path))
      in if path = [] then ''.''
         else if p = [] then ''/''
         else rev (takeWhile (\<lambda>c. c \<noteq> CHR ''/'') (rev p)))"

text \<open>The verb \<open>%d\<close> of \<open>fmt.Sprintf\<close> on a number that is not negative.\<close>

fun itoa :: "nat \<Rightarrow> string" where
  "itoa n = (if n < 10 then [''0123456789'' ! n] else itoa (n div 10) @ [''0123456789'' ! (n mod 10)])"

section \<open>Text beyond ASCII\<close>

text \<open>
  \<open>utf8.DecodeRuneInString\<close>: the rune at the beginning of a non-empty string and
  its width in bytes. \<open>first_byte\<close> is the table of the package for a first byte
  beyond ASCII: the size of the sequence and the range of its second byte; a byte
  that begins no sequence, a sequence that is cut short and a byte out of its range
  give \<open>RuneError\<close> with the width 1.
\<close>

definition RuneError :: nat where
  "RuneError = 0xFFFD"

definition first_byte :: "nat \<Rightarrow> (nat \<times> nat \<times> nat) option" where
  "first_byte b =
     (if 0xC2 \<le> b \<and> b \<le> 0xDF then Some (2, 0x80, 0xBF)
      else if b = 0xE0 then Some (3, 0xA0, 0xBF)
      else if (0xE1 \<le> b \<and> b \<le> 0xEC) \<or> b = 0xEE \<or> b = 0xEF then Some (3, 0x80, 0xBF)
      else if b = 0xED then Some (3, 0x80, 0x9F)
      else if b = 0xF0 then Some (4, 0x90, 0xBF)
      else if 0xF1 \<le> b \<and> b \<le> 0xF3 then Some (4, 0x80, 0xBF)
      else if b = 0xF4 then Some (4, 0x80, 0x8F)
      else None)"

definition DecodeRune :: "string \<Rightarrow> nat \<times> nat" where
  "DecodeRune s =
     (let b = map of_char s; s0 = b ! 0 in
      if s0 < 0x80 then (s0, 1)
      else case first_byte s0 of
             None \<Rightarrow> (RuneError, 1)
           | Some (sz, lo, hi) \<Rightarrow>
               if length s < sz then (RuneError, 1)
               else if b ! 1 < lo \<or> hi < b ! 1 then (RuneError, 1)
               else if sz \<le> 2 then (s0 mod 32 * 64 + b ! 1 mod 64, 2)
               else if b ! 2 < 0x80 \<or> 0xBF < b ! 2 then (RuneError, 1)
               else if sz \<le> 3 then (s0 mod 16 * 4096 + b ! 1 mod 64 * 64 + b ! 2 mod 64, 3)
               else if b ! 3 < 0x80 \<or> 0xBF < b ! 3 then (RuneError, 1)
               else (s0 mod 8 * 262144 + b ! 1 mod 64 * 4096 + b ! 2 mod 64 * 64 + b ! 3 mod 64, 4))"

text \<open>The runes of a string, as a \<open>range\<close> loop and the \<open>regexp\<close> package read them.\<close>

function runes :: "string \<Rightarrow> nat list" where
  "runes [] = []"
| "runes (c # cs) = fst (DecodeRune (c # cs)) # runes (drop (snd (DecodeRune (c # cs)) - 1) cs)"
  by pat_completeness auto
termination
  by (relation "measure length") auto

text \<open>
  \<open>unicode.ToLower\<close>: written out on ASCII; beyond ASCII it reads the tables of the
  \<open>unicode\<close> package, which are a parameter of the model.
\<close>

definition lowerRune :: "(nat \<Rightarrow> nat) \<Rightarrow> nat \<Rightarrow> nat" where
  "lowerRune unicodeLower r =
     (if r < 0x80 then (if 0x41 \<le> r \<and> r \<le> 0x5A then r + 32 else r) else unicodeLower r)"

text \<open>
  \<open>generateSlug\<close> on any text: \<open>strings.ToLower\<close> maps the runes (a byte that is no
  rune becomes \<open>RuneError\<close>), \<open>/\<close> becomes \<open>-\<close>, every rune outside \<open>[a-z0-9-]\<close>
  becomes one \<open>-\<close>, and the hyphens at both ends are trimmed. On ASCII text this is
  \<open>generateSlug\<close> above (\<open>generateSlug_runes_ascii\<close>).
\<close>

definition in_slug_class :: "nat \<Rightarrow> bool" where
  "in_slug_class r = ((0x61 \<le> r \<and> r \<le> 0x7A) \<or> (0x30 \<le> r \<and> r \<le> 0x39) \<or> r = 0x2D)"

definition generateSlug_runes :: "(nat \<Rightarrow> nat) \<Rightarrow> string \<Rightarrow> string" where
  "generateSlug_runes unicodeLower modelID =
     (let slug = map (lowerRune unicodeLower) (runes modelID);
          slug = map (\<lambda>r. if r = 0x2F then 0x2D else r) slug;
          slug = map (\<lambda>r. if in_slug_class r then r else 0x2D) slug
      in Trim (map char_of slug) ''-'')"

section \<open>Importing the models on disk\<close>

text \<open>
  \<open>filepath.Walk\<close> calls the function it is given once for every path of the tree, in
  lexical order, and stops at the first call that returns an error (the function of
  \<open>ImportExisting\<close> never returns \<open>SkipDir\<close>). A \<open>visit\<close> is one such call, with what the
  world answers during it: the names of the path below the root (Walk joins them to the
  root; \<open>filepath.Rel\<close>, which does not fail on such a path, and \<open>strings.Split\<close>
  recover them in the function, so the model keeps them), whether the path is a
  directory, the size of the file, whether Walk reports an error for the path, whether
  the insert issued for the file runs, and the time.
\<close>

record visit =
  v_names :: "string list"
  v_isDir :: bool
  v_size :: nat
  v_err :: bool
  v_insert_ok :: bool
  v_now :: nat

datatype notice =
    InfoScanning string
  | InfoImported string
  | WarnImportFailed string error
  | InfoImportCompleted

definition v_path :: "string \<Rightarrow> visit \<Rightarrow> string" where
  "v_path modelsDir v = filepath_Join (modelsDir # v_names v)"

definition is_gguf_file :: "string \<Rightarrow> visit \<Rightarrow> bool" where
  "is_gguf_file modelsDir v = (\<not> v_isDir v \<and> HasSuffix (ToLower (v_path modelsDir v)) ''.gguf'')"

definition import_modelID :: "string list \<Rightarrow> string" where
  "import_modelID parts =
     (if length parts > 2 then filepath_Join (butlast parts) else hd parts)"

text \<open>The function that \<open>ImportExisting\<close> gives to \<open>filepath.Walk\<close>.\<close>

definition walkFn ::
  "(nat \<Rightarrow> nat) \<Rightarrow> string \<Rightarrow> Store \<Rightarrow> visit \<Rightarrow> error option \<times> Store \<times> notice list" where
  "walkFn unicodeLower modelsDir s v =
     (if v_err v then (Some OSError, s, [])
      else if is_gguf_file modelsDir v then
        (let path = v_path modelsDir v;
             parts = v_names v
         in if length parts < 2 then (None, s, [])
            else
              let modelID = import_modelID parts;
                  fileName = Base path;
                  fileSize = itoa (v_size v div (1024 * 1024)) @ ''M'';
                  slug = generateSlug_runes unicodeLower modelID
              in case AddModel (v_insert_ok v) (v_now v) s slug modelID fileName path fileSize of
                   (Some err, s') \<Rightarrow> (None, s', [WarnImportFailed path err])
                 | (None, s') \<Rightarrow> (None, s', [InfoImported slug]))
      else (None, s, []))"

fun Walk ::
  "(nat \<Rightarrow> nat) \<Rightarrow> string \<Rightarrow> Store \<Rightarrow> visit list \<Rightarrow> error option \<times> Store \<times> notice list" where
  "Walk unicodeLower modelsDir s [] = (None, s, [])"
| "Walk unicodeLower modelsDir s (v # vs) =
     (case walkFn unicodeLower modelsDir s v of
        (Some err, s', out) \<Rightarrow> (Some err, s', out)
      | (None, s', out) \<Rightarrow>
          (case Walk unicodeLower modelsDir s' vs of (r, s'', out') \<Rightarrow> (r, s'', out @ out')))"

definition ImportExisting ::
  "(nat \<Rightarrow> nat) \<Rightarrow> string \<Rightarrow> Store \<Rightarrow> visit list \<Rightarrow> error option \<times> Store \<times> notice list" where
  "ImportExisting unicodeLower modelsDir s visits =
     (case Walk unicodeLower modelsDir s visits of
        (Some err, s', out) \<Rightarrow>
          (Some (Wrap ''walking models directory'' err), s', InfoScanning modelsDir # out)
      | (None, s', out) \<Rightarrow> (None, s', InfoScanning modelsDir # out @ [InfoImportCompleted]))"

text \<open>
  The words in which the statements about the import are made: a visit is of a model
  file when it is a file at least one directory below the root whose path ends in
  \<open>.gguf\<close>; the slug under which it is stored; and the record that \<open>AddModel\<close>
  writes for it, whatever its row id.
\<close>

definition is_model_file :: "string \<Rightarrow> visit \<Rightarrow> bool" where
  "is_model_file modelsDir v = (is_gguf_file modelsDir v \<and> 2 \<le> length (v_names v))"

definition import_slug :: "(nat \<Rightarrow> nat) \<Rightarrow> visit \<Rightarrow> string" where
  "import_slug unicodeLower v = generateSlug_runes unicodeLower (import_modelID (v_names v))"

definition is_record_of :: "(nat \<Rightarrow> nat) \<Rightarrow> string \<Rightarrow> visit \<Rightarrow> Model \<Rightarrow> bool" where
  "is_record_of unicodeLower modelsDir v m =
     (Slug m = import_slug unicodeLower v \<and>
      ModelID m = import_modelID (v_names v) \<and>
      FileName m = Base (v_path modelsDir v) \<and>
      FilePath m = v_path modelsDir v \<and>
      FileSize m = itoa (v_size v div (1024 * 1024)) @ ''M'' \<and>
      CreatedAt m = v_now v \<and>
      LastUsed m = None)"

section \<open>Pulling a model\<close>

text \<open>
  What \<open>Pull\<close> does to the world, in order, and what the world answers: whether the
  model directory exists, what \<open>filepath.Glob\<close> finds in it, the reply of the hub, the
  file names that \<open>json.Unmarshal\<close> reads from the reply's body, and whether creating
  the directory, the download, the two \<open>os.Stat\<close> of the downloaded file and the
  insert succeed.
\<close>

datatype effect =
    Stat string
  | Glob string
  | HttpGet string
  | MkdirAll string
  | RunCommand "string list"
  | Insert string

datatype http_result = HttpFailed | HttpResponse nat "string option"

record pull_env =
  pe_dir_exists :: bool
  pe_glob :: "string list option"
  pe_http :: http_result
  pe_siblings :: "string \<Rightarrow> string list option"
  pe_mkdir_ok :: bool
  pe_download_ok :: bool
  pe_downloaded_exists :: bool
  pe_downloaded_size :: "nat option"
  pe_insert_ok :: bool
  pe_now :: nat

text \<open>The last part of \<open>Pull\<close>: create the directory, download, record.\<close>

definition Pull_download ::
  "pull_env \<Rightarrow> Store \<Rightarrow> string \<Rightarrow> string \<Rightarrow> string \<Rightarrow> effect list \<Rightarrow> error option \<times> effect list \<times> Store" where
  "Pull_download env s modelID modelDir fileToDownload fx =
     (let fx = fx @ [MkdirAll modelDir] in
      if \<not> pe_mkdir_ok env then (Some (Wrap ''creating model directory'' OSError), fx, s)
      else
        let fx = fx @ [RunCommand [''huggingface-cli'', ''download'', modelID, fileToDownload,
                                   ''--local-dir'', modelDir]]
        in if \<not> pe_download_ok env then (Some (Wrap ''downloading model'' ExecError), fx, s)
           else
             let downloadedFile = filepath_Join [modelDir, fileToDownload];
                 fx = fx @ [Stat downloadedFile]
             in if \<not> pe_downloaded_exists env
                then (Some (Wrap ''downloaded file not found'' OSError), fx, s)
                else
                  let fx = fx @ [Stat downloadedFile] in
                  case pe_downloaded_size env of
                    None \<Rightarrow> (Some (Wrap ''getting file info'' OSError), fx, s)
                  | Some bytes \<Rightarrow>
                      let fileSize = itoa (bytes div (1024 * 1024)) @ ''M'';
                          slug = generateSlug modelID;
                          fx = fx @ [Insert slug]
                      in case AddModel (pe_insert_ok env) (pe_now env) s slug modelID
                                fileToDownload downloadedFile fileSize of
                           (Some err, s') \<Rightarrow> (Some (Wrap ''adding model to database'' err), fx, s')
                         | (None, s') \<Rightarrow> (None, fx, s'))"

text \<open>The middle part: ask the hub, choose the first file that ends in \<open>q4_k_m.gguf\<close>.\<close>

definition Pull_fetch ::
  "pull_env \<Rightarrow> Store \<Rightarrow> string \<Rightarrow> string \<Rightarrow> effect list \<Rightarrow> error option \<times> effect list \<times> Store" where
  "Pull_fetch env s modelID modelDir fx =
     (let apiURL = ''https://huggingface.co/api/models/'' @ modelID @
                   ''?filter=gguf&sort=lastModified'';
          fx = fx @ [HttpGet apiURL]
      in case pe_http env of
           HttpFailed \<Rightarrow> (Some (Wrap ''fetching model information'' NetError), fx, s)
         | HttpResponse status body \<Rightarrow>
             if status \<noteq> 200 then (Some (ApiStatus status), fx, s)
             else case body of
                    None \<Rightarrow> (Some (Wrap ''reading API response'' NetError), fx, s)
                  | Some b \<Rightarrow>
                      (case pe_siblings env b of
                         None \<Rightarrow> (Some (Wrap ''parsing model information'' DecodeError), fx, s)
                       | Some siblings \<Rightarrow>
                           let fileToDownload =
                                 (case find (\<lambda>n. HasSuffix (ToLower n) ''q4_k_m.gguf'') siblings of
                                    None \<Rightarrow> []
                                  | Some n \<Rightarrow> n)
                           in if fileToDownload = [] then (Some (NoQuantFile modelID), fx, s)
                              else Pull_download env s modelID modelDir fileToDownload fx))"

definition Pull ::
  "string \<Rightarrow> pull_env \<Rightarrow> Store \<Rightarrow> string \<Rightarrow> error option \<times> effect list \<times> Store" where
  "Pull modelsDir env s modelID =
     (if \<not> validateModelID modelID then (Some (InvalidModelID modelID), [], s)
      else
        let modelDir = filepath_Join [modelsDir, modelID] in
        if pe_dir_exists env then
          (let fx = [Stat modelDir, Glob (filepath_Join [modelDir, ''*.gguf''])] in
           case pe_glob env of
             None \<Rightarrow> (Some (Wrap ''checking existing files'' OSError), fx, s)
           | Some files \<Rightarrow>
               if length files > 0 then (None, fx, s)
               else Pull_fetch env s modelID modelDir fx)
        else Pull_fetch env s modelID modelDir [Stat modelDir])"

text \<open>
  The identifiers as the specification words them: \<open><namespace>/<name>\<close>, each of the two
  segments of alphanumeric characters, hyphens, underscores and dots only. This
  definition follows the specification, not the source; it is only compared with
  \<open>validateModelID\<close>.
\<close>

definition spec_source_id :: "string \<Rightarrow> bool" where
  "spec_source_id ident =
     (case Split ident CHR ''/'' of
        [namespace, name] \<Rightarrow>
          namespace \<noteq> [] \<and> name \<noteq> [] \<and> list_all cls_name namespace \<and> list_all cls_name name
      | _ \<Rightarrow> False)"

section \<open>A chat turn\<close>

text \<open>
  The dynamic value that \<open>json.Unmarshal\<close> stores under a key of a
  \<open>map[string]interface{}\<close>: a string, or a value of another type (\<open>nil\<close>, \<open>bool\<close>,
  \<open>float64\<close>, a slice, a map). The decoder is a parameter: it yields the map of a text,
  or no map when it returns an error.
\<close>

datatype iface = IString string | IOther

type_synonym unmarshal = "string \<Rightarrow> (string \<Rightarrow> iface option) option"

text \<open>The body of the scanner loop of \<open>Chat\<close>: what is printed so far, and \<open>fullResponse\<close>.\<close>

definition streamLine :: "unmarshal \<Rightarrow> string \<times> string \<Rightarrow> string \<Rightarrow> string \<times> string" where
  "streamLine um acc line =
     (if HasPrefix line ''data: '' then
        (let data = TrimPrefix line ''data: '' in
         case um data of
           None \<Rightarrow> acc
         | Some streamData \<Rightarrow>
             (case streamData ''content'' of
                Some (IString content) \<Rightarrow> (fst acc @ content, snd acc @ content)
              | _ \<Rightarrow> acc))
      else acc)"

text \<open>
  The reply to the request of one turn: the request fails; or a status other than 200
  with its body; or status 200 with the lines that the scanner yields from the body, and
  whether the scanner ends with an error.
\<close>

datatype reply = SendFailed | BadStatus nat string | Stream "string list" bool

datatype turn = Exit | Failed error | Answered

text \<open>
  One round of the loop of \<open>Chat\<close>, from the trimmed input line on: the outcome, the
  history, and what is printed after the prompt \<open>User:\<close>.
\<close>

definition chatTurn ::
  "unmarshal \<Rightarrow> string list \<Rightarrow> string \<Rightarrow> reply \<Rightarrow> turn \<times> string list \<times> string" where
  "chatTurn um chatHistory userInput rep =
     (if userInput = ''exit'' then (Exit, chatHistory, [])
      else
        let chatHistory = chatHistory @ [userInput] in
        case rep of
          SendFailed \<Rightarrow> (Failed (Wrap ''sending request'' NetError), chatHistory, [])
        | BadStatus status body \<Rightarrow> (Failed (ApiReply status body), chatHistory, [])
        | Stream lines scan_failed \<Rightarrow>
            let (printed, fullResponse) = foldl (streamLine um) (''Assistant: '', []) lines;
                printed = printed @ [CHR 0x0A]
            in if scan_failed then (Failed (Wrap ''reading stream'' ScanError), chatHistory, printed)
               else (Answered, chatHistory @ [fullResponse], printed))"

section \<open>Waiting for the server\<close>

text \<open>
  \<open>health i\<close> is what \<open>IsServerRunning\<close> answers at the check of the loop index \<open>i\<close>
  (the first check has the index 0). The trace lists what the loop does: the dots it
  prints, its checks, its sleeps of one second, and the last message.
\<close>

datatype wait_event = Dot | Check | SleepSecond | Ready nat

function WaitLoop :: "(nat \<Rightarrow> bool) \<Rightarrow> int \<Rightarrow> nat \<Rightarrow> error option \<times> wait_event list" where
  "WaitLoop health maxWaitSeconds i =
     (if int i < maxWaitSeconds then
        (let dot = (if i > 0 \<and> i mod 10 = 0 then [Dot] else []) in
         if health i then (None, dot @ [Check, Ready i])
         else case WaitLoop health maxWaitSeconds (Suc i) of
                (r, evs) \<Rightarrow> (r, dot @ [Check, SleepSecond] @ evs))
      else (Some (StartTimeout maxWaitSeconds), []))"
  by pat_completeness auto
termination
  by (relation "measure (\<lambda>(health, maxWaitSeconds, i). nat (maxWaitSeconds - int i))") auto

definition WaitForServer :: "(nat \<Rightarrow> bool) \<Rightarrow> int \<Rightarrow> error option \<times> wait_event list" where
  "WaitForServer health maxWaitSeconds = WaitLoop health maxWaitSeconds 0"

text \<open>
  The trace of one round of the loop that finds the server not ready, and the dot that
  begins a round: the words in which the statements about the loop are made.
\<close>

definition progress_dot :: "nat \<Rightarrow> wait_event list" where
  "progress_dot i = (if i > 0 \<and> i mod 10 = 0 then [Dot] else [])"

definition unanswered :: "nat \<Rightarrow> wait_event list" where
  "unanswered i = progress_dot i @ [Check, SleepSecond]"

definition count_event :: "wait_event \<Rightarrow> wait_event list \<Rightarrow> nat" where
  "count_event e evs = length (filter (\<lambda>x. x = e) evs)"

section \<open>Killing all servers\<close>

text \<open>\<open>strings.Fields\<close> on ASCII white space.\<close>

definition isSpace :: "char \<Rightarrow> bool" where
  "isSpace c = (c \<in> set [CHR 0x09, CHR 0x0A, CHR 0x0B, CHR 0x0C, CHR 0x0D, CHR '' ''])"

fun fields_from :: "string \<Rightarrow> string \<Rightarrow> string list" where
  "fields_from cur [] = (if cur = [] then [] else [cur])"
| "fields_from cur (c # cs) =
     (if isSpace c then (if cur = [] then fields_from [] cs else cur # fields_from [] cs)
      else fields_from (cur @ [c]) cs)"

definition Fields :: "string \<Rightarrow> string list" where
  "Fields s = fields_from [] s"

text \<open>
  \<open>strconv.Atoi\<close>: an optional sign and decimal digits, of a value that a 64-bit
  \<open>int\<close> holds.
\<close>

definition digit_value :: "char \<Rightarrow> int" where
  "digit_value c = int (of_char c) - 48"

definition Atoi :: "string \<Rightarrow> int option" where
  "Atoi s =
     (let negative = (s \<noteq> [] \<and> hd s = CHR ''-'');
          digits = (if s \<noteq> [] \<and> (hd s = CHR ''-'' \<or> hd s = CHR ''+'') then tl s else s);
          n = foldl (\<lambda>n c. 10 * n + digit_value c) 0 digits
      in if digits = [] \<or> \<not> list_all (in_range CHR ''0'' CHR ''9'') digits then None
         else if negative then (if n \<le> 2 ^ 63 then Some (- n) else None)
         else (if n < 2 ^ 63 then Some n else None))"

datatype signal = SIGTERM | SIGKILL

text \<open>
  What \<open>pgrep -f llama-server\<close> answers: its standard output with the exit status 0, or
  the exit status 1 (nothing matches), or another failure.
\<close>

datatype pgrep = Found string | NoMatch | PgrepFailed

record kill_env =
  first_scan :: pgrep
  second_scan :: pgrep
  find_ok :: "int \<Rightarrow> signal \<Rightarrow> bool"
  signal_ok :: "int \<Rightarrow> signal \<Rightarrow> bool"

datatype kill_event =
    Pgrep
  | Signal int signal
  | Sleep nat
  | WarnNoProcesses
  | InfoKilling
  | WarnCouldNotFind int
  | ErrorTerminate int
  | WarnForceKilling
  | ErrorForceKill int
  | InfoAllTerminated

text \<open>The two loops of \<open>KillAll\<close> over the fields of the output of \<open>pgrep\<close>.\<close>

fun terminate_each :: "kill_env \<Rightarrow> string list \<Rightarrow> kill_event list" where
  "terminate_each env [] = []"
| "terminate_each env (pidStr # pids) =
     (case Atoi pidStr of
        None \<Rightarrow> terminate_each env pids
      | Some pid \<Rightarrow>
          if \<not> find_ok env pid SIGTERM then WarnCouldNotFind pid # terminate_each env pids
          else if \<not> signal_ok env pid SIGTERM
          then Signal pid SIGTERM # ErrorTerminate pid # terminate_each env pids
          else Signal pid SIGTERM # terminate_each env pids)"

fun force_kill_each :: "kill_env \<Rightarrow> string list \<Rightarrow> kill_event list" where
  "force_kill_each env [] = []"
| "force_kill_each env (pidStr # pids) =
     (case Atoi pidStr of
        None \<Rightarrow> force_kill_each env pids
      | Some pid \<Rightarrow>
          if \<not> find_ok env pid SIGKILL then force_kill_each env pids
          else if \<not> signal_ok env pid SIGKILL
          then Signal pid SIGKILL # ErrorForceKill pid # force_kill_each env pids
          else Signal pid SIGKILL # force_kill_each env pids)"

definition KillAll :: "kill_env \<Rightarrow> error option \<times> kill_event list" where
  "KillAll env =
     (case first_scan env of
        NoMatch \<Rightarrow> (None, [Pgrep, WarnNoProcesses])
      | PgrepFailed \<Rightarrow> (Some (Wrap ''finding processes'' ExecError), [Pgrep])
      | Found output \<Rightarrow>
          let pids = Fields output in
          if length pids = 0 then (None, [Pgrep, WarnNoProcesses])
          else
            (None,
             [Pgrep, InfoKilling] @ terminate_each env pids @ [Sleep 2, Pgrep] @
             (case second_scan env of
                Found output \<Rightarrow>
                  if length output > 0
                  then WarnForceKilling # force_kill_each env (Fields output)
                  else []
              | _ \<Rightarrow> []) @
             [InfoAllTerminated]))"

text \<open>The process ids that a loop of \<open>KillAll\<close> signals: the fields that are numbers.\<close>

definition pids_of :: "string \<Rightarrow> int list" where
  "pids_of output = List.map_filter Atoi (Fields output)"

definition is_action :: "kill_event \<Rightarrow> bool" where
  "is_action e = (case e of Pgrep \<Rightarrow> True | Signal pid sig \<Rightarrow> True | Sleep n \<Rightarrow> True | _ \<Rightarrow> False)"

text \<open>
  The process ids that a loop signals (those that \<open>os.FindProcess\<close> finds; on Unix,
  all), and the output that the second loop reads.
\<close>

definition signalled :: "kill_env \<Rightarrow> signal \<Rightarrow> string \<Rightarrow> int list" where
  "signalled env sig output = filter (\<lambda>pid. find_ok env pid sig) (pids_of output)"

definition rescanned :: "kill_env \<Rightarrow> string" where
  "rescanned env = (case second_scan env of Found output \<Rightarrow> output | _ \<Rightarrow> [])"

section \<open>Matching by derivatives is matching\<close>

lemma nullable_lang: "nullable r \<longleftrightarrow> [] \<in> lang r"
  by (induction r) (auto simp: conc_def intro: star.intros)

lemma conc_Cons:
  "c # w \<in> conc A B \<longleftrightarrow>
     (\<exists>u v. w = u @ v \<and> c # u \<in> A \<and> v \<in> B) \<or> ([] \<in> A \<and> c # w \<in> B)"
  by (auto simp: conc_def Cons_eq_append_conv) 

lemma star_Cons_D:
  "x \<in> star A \<Longrightarrow> x = c # w \<Longrightarrow> \<exists>u v. w = u @ v \<and> c # u \<in> A \<and> v \<in> star A"
proof (induction arbitrary: w rule: star.induct)
  case star_nil
  then show ?case by simp
next
  case (star_app u v)
  show ?case
  proof (cases u)
    case Nil
    with star_app show ?thesis by simp
  next
    case (Cons a u')
    with star_app.prems have "a = c" "w = u' @ v" by simp_all
    with Cons star_app.hyps show ?thesis by blast
  qed
qed

lemma star_Cons:
  "c # w \<in> star A \<longleftrightarrow> (\<exists>u v. w = u @ v \<and> c # u \<in> A \<and> v \<in> star A)"
proof
  assume "c # w \<in> star A"
  then show "\<exists>u v. w = u @ v \<and> c # u \<in> A \<and> v \<in> star A"
    by (rule star_Cons_D) simp
next
  assume "\<exists>u v. w = u @ v \<and> c # u \<in> A \<and> v \<in> star A"
  then obtain u v where "w = u @ v" "c # u \<in> A" "v \<in> star A" by blast
  then show "c # w \<in> star A"
    using star_app [of "c # u" A v] by simp
qed

lemma deriv_lang: "w \<in> lang (deriv c r) \<longleftrightarrow> c # w \<in> lang r"
proof (induction r arbitrary: w)
  case (Cat r s)
  then show ?case
    by (auto simp: conc_Cons nullable_lang) (auto simp: conc_def)
next
  case (Rep r)
  then show ?case
    by (auto simp: star_Cons) (auto simp: conc_def)
next
  case (Rep1 r)
  then show ?case
    by (simp add: conc_Cons star_Cons) (auto simp: conc_def)
qed auto

lemma star_Sym: "w \<in> star {[c] | c. p c} \<longleftrightarrow> list_all p w"
proof
  assume "w \<in> star {[c] | c. p c}"
  then show "list_all p w" by (induction rule: star.induct) auto
next
  assume "list_all p w"
  then show "w \<in> star {[c] | c. p c}"
  proof (induction w)
    case Nil
    show ?case by (rule star_nil)
  next
    case (Cons a w)
    then have "[a] \<in> {[c] | c. p c}" "w \<in> star {[c] | c. p c}" by simp_all
    then have "[a] @ w \<in> star {[c] | c. p c}" by (rule star_app)
    then show ?case by simp
  qed
qed

lemma lang_Rep1_Sym: "w \<in> lang (Rep1 (Sym p)) \<longleftrightarrow> w \<noteq> [] \<and> list_all p w"
proof (cases w)
  case Nil
  then show ?thesis by (simp add: conc_def)
next
  case (Cons a l)
  then show ?thesis by (auto simp: conc_Cons star_Sym)
qed

lemma matches_lang: "matches r s \<longleftrightarrow> s \<in> lang r"
  by (induction s arbitrary: r) (simp_all add: nullable_lang deriv_lang)


lemma validateModelID_iff:
  "validateModelID s \<longleftrightarrow>
     (\<exists>ns nm. s = ns @ CHR ''/'' # nm \<and> ns \<noteq> [] \<and> list_all cls_namespace ns \<and>
        nm \<noteq> [] \<and> list_all cls_name nm)"
proof -
  have "validateModelID s \<longleftrightarrow>
      s \<in> conc (lang (Rep1 (Sym cls_namespace)))
            (conc {[CHR ''/'']} (lang (Rep1 (Sym cls_name))))"
    by (simp add: validateModelID_def modelID_pattern_def matches_lang)
  also have "\<dots> \<longleftrightarrow> (\<exists>ns nm. s = ns @ CHR ''/'' # nm \<and> ns \<in> lang (Rep1 (Sym cls_namespace)) \<and>
        nm \<in> lang (Rep1 (Sym cls_name)))"
    unfolding conc_def by auto
  finally show ?thesis
    unfolding lang_Rep1_Sym by blast
qed

section \<open>Properties of slugs\<close>

lemma toLowerByte_cases:
  "toLowerByte c = c \<or> in_range CHR ''a'' CHR ''z'' (toLowerByte c)"
proof (cases "in_range CHR ''A'' CHR ''Z'' c")
  case True
  then have "65 \<le> (of_char c :: nat)" "(of_char c :: nat) \<le> 90"
    by (simp_all add: in_range_def)
  then have "in_range CHR ''a'' CHR ''z'' (char_of (of_char c + (32::nat)))"
    by (simp add: in_range_def)
  with True show ?thesis by (simp add: toLowerByte_def)
next
  case False
  then show ?thesis by (simp add: toLowerByte_def)
qed

lemma ReplaceAllString_slug_chars:
  "c \<in> set (ReplaceAllString cls_not_slug s ''-'') \<Longrightarrow> \<not> cls_not_slug c"
  by (auto simp: ReplaceAllString_def cls_not_slug_def split: if_splits)

lemma set_Trim: "set (Trim s cutset) \<subseteq> set s"
proof -
  have "set (Trim s cutset) \<subseteq> set (dropWhile (\<lambda>c. c \<in> set cutset) s)"
    unfolding Trim_def using set_dropWhileD by fastforce
  also have "\<dots> \<subseteq> set s"
    using set_dropWhileD by fastforce
  finally show ?thesis .
qed

lemma hd_Trim: "Trim s cutset \<noteq> [] \<Longrightarrow> hd (Trim s cutset) \<notin> set cutset"
proof -
  let ?P = "\<lambda>c. c \<in> set cutset"
  let ?t = "dropWhile ?P s"
  assume ne: "Trim s cutset \<noteq> []"
  have tne: "?t \<noteq> []"
  proof
    assume "?t = []"
    then have "Trim s cutset = []" by (simp add: Trim_def del: dropWhile_eq_Nil_conv)
    with ne show False by simp
  qed
  then have h: "\<not> ?P (hd ?t)" by (rule hd_dropWhile)
  obtain x xs where t: "?t = x # xs" using tne by (cases ?t) auto
  have "Trim s cutset = rev (dropWhile ?P (rev xs @ [x]))"
    by (simp add: Trim_def t)
  also have "\<dots> = rev (dropWhile ?P (rev xs) @ [x])"
    using h t by (simp add: dropWhile_append)
  also have "\<dots> = x # rev (dropWhile ?P (rev xs))" by simp
  finally show ?thesis using h t by simp
qed

lemma last_Trim: "Trim s cutset \<noteq> [] \<Longrightarrow> last (Trim s cutset) \<notin> set cutset"
proof -
  let ?P = "\<lambda>c. c \<in> set cutset"
  let ?u = "dropWhile ?P (rev (dropWhile ?P s))"
  assume ne: "Trim s cutset \<noteq> []"
  then have une: "?u \<noteq> []" by (simp add: Trim_def)
  then have "\<not> ?P (hd ?u)" by (rule hd_dropWhile)
  moreover have "last (Trim s cutset) = hd ?u"
    using une by (simp add: Trim_def last_rev)
  ultimately show ?thesis by simp
qed

lemma no_prefix_Trim: "\<not> HasPrefix (Trim s [c]) [c]"
proof (cases "Trim s [c]")
  case Nil
  then show ?thesis by (simp add: HasPrefix_def)
next
  case (Cons a l)
  with hd_Trim [of s "[c]"] show ?thesis by (simp add: HasPrefix_def)
qed

lemma no_suffix_Trim: "\<not> HasSuffix (Trim s [c]) [c]"
proof (cases "Trim s [c] = []")
  case True
  then show ?thesis by (simp add: HasSuffix_def)
next
  case False
  then have "last (Trim s [c]) \<noteq> c"
    using last_Trim [of s "[c]"] by simp
  moreover have "drop (length (Trim s [c]) - 1) (Trim s [c]) = [last (Trim s [c])]"
    using False by (metis append_butlast_last_id append_eq_conv_conj length_butlast)
  ultimately show ?thesis by (simp add: HasSuffix_def)
qed

lemma generateSlug_chars:
  "c \<in> set (generateSlug modelID) \<Longrightarrow> \<not> cls_not_slug c"
  using set_Trim ReplaceAllString_slug_chars unfolding generateSlug_def Let_def by blast

lemma validateModelID_ascii:
  "validateModelID s \<Longrightarrow> list_all (\<lambda>c. (of_char c :: nat) < 128) s"
proof -
  have ns: "cls_namespace c \<Longrightarrow> (of_char c :: nat) < 128" for c
    by (auto simp: cls_namespace_def in_range_def)
  have nm: "cls_name c \<Longrightarrow> (of_char c :: nat) < 128" for c
    by (auto simp: cls_name_def in_range_def)
  assume "validateModelID s"
  then obtain a b where "s = a @ CHR ''/'' # b" "list_all cls_namespace a" "list_all cls_name b"
    unfolding validateModelID_iff by blast
  then show ?thesis using ns nm by (auto simp: list_all_iff)
qed

text \<open>
  C3. The claim: for every identifier, the slug is the identifier in lower case with
  \<open>/\<close> replaced by \<open>-\<close>, every character outside \<open>[a-z0-9-]\<close> deleted, and the
  hyphens at both ends trimmed. The source replaces each such character by a hyphen
  instead of deleting it (its own comment says "Remove"): on \<open>Qwen/Qwen2.5-7B\<close> the
  source yields \<open>qwen-qwen2-5-7b\<close>, the claim \<open>qwen-qwen25-7b\<close>.
\<close>

theorem generateSlug_keeps_a_hyphen:
  "generateSlug ''Qwen/Qwen2.5-7B'' = ''qwen-qwen2-5-7b'' \<and>
   spec_generate_slug ''Qwen/Qwen2.5-7B'' = ''qwen-qwen25-7b''"
  by code_simp

text \<open>
  C4. For every valid identifier (one that \<open>validateModelID\<close> accepts), the slug is a
  function of the identifier alone, is in lower case, consists of characters of
  \<open>[a-z0-9-]\<close> only, and neither begins nor ends with a hyphen.
\<close>

theorem generateSlug_valid_shape:
  assumes "validateModelID modelID"
  shows "(\<forall>other. other = modelID \<longrightarrow> generateSlug other = generateSlug modelID) \<and>
         ToLower (generateSlug modelID) = generateSlug modelID \<and>
         list_all (\<lambda>c. in_range CHR ''a'' CHR ''z'' c \<or> in_range CHR ''0'' CHR ''9'' c \<or> c = CHR ''-'')
           (generateSlug modelID) \<and>
         \<not> HasPrefix (generateSlug modelID) ''-'' \<and>
         \<not> HasSuffix (generateSlug modelID) ''-''"
proof -
  have chars: "list_all (\<lambda>c. in_range CHR ''a'' CHR ''z'' c \<or> in_range CHR ''0'' CHR ''9'' c \<or> c = CHR ''-'')
           (generateSlug modelID)"
    using generateSlug_chars [of _ modelID] by (auto simp: list_all_iff cls_not_slug_def)
  have "toLowerByte c = c" if "c \<in> set (generateSlug modelID)" for c
  proof -
    from that chars have "in_range CHR ''a'' CHR ''z'' c \<or> in_range CHR ''0'' CHR ''9'' c \<or> c = CHR ''-''"
      by (simp add: list_all_iff)
    then have "\<not> in_range CHR ''A'' CHR ''Z'' c"
      by (auto simp: in_range_def)
    then show ?thesis by (simp add: toLowerByte_def)
  qed
  then have lower: "ToLower (generateSlug modelID) = generateSlug modelID"
    unfolding ToLower_def by (simp add: map_idI)
  have "\<not> HasPrefix (generateSlug modelID) ''-''" "\<not> HasSuffix (generateSlug modelID) ''-''"
    unfolding generateSlug_def Let_def by (rule no_prefix_Trim, rule no_suffix_Trim)
  with chars lower show ?thesis by simp
qed

theorem generateSlug_valid_shape_witness:
  "validateModelID ''TheBloke/Llama-2-7B.Q4_K'' \<and>
   generateSlug ''TheBloke/Llama-2-7B.Q4_K'' = ''thebloke-llama-2-7b-q4-k'' \<and>
   ToLower (generateSlug ''TheBloke/Llama-2-7B.Q4_K'') = generateSlug ''TheBloke/Llama-2-7B.Q4_K'' \<and>
   \<not> HasPrefix (generateSlug ''TheBloke/Llama-2-7B.Q4_K'') ''-'' \<and>
   \<not> HasSuffix (generateSlug ''TheBloke/Llama-2-7B.Q4_K'') ''-''"
proof -
  have v: "validateModelID ''TheBloke/Llama-2-7B.Q4_K''" by code_simp
  have g: "generateSlug ''TheBloke/Llama-2-7B.Q4_K'' = ''thebloke-llama-2-7b-q4-k''" by code_simp
  from generateSlug_valid_shape [OF v] v g show ?thesis by simp
qed

section \<open>The slug is unique\<close>

lemma unique_AddModel:
  "unique_slugs s \<Longrightarrow> unique_slugs (snd (AddModel ok now s slug modelID fileName filePath fileSize))"
  by (auto simp: unique_slugs_def AddModel_def distinct_map_filter)

lemma unique_UpdateModelLastUsed:
  "unique_slugs s \<Longrightarrow> unique_slugs (snd (UpdateModelLastUsed oc now s slug))"
proof -
  have "map Slug (map (\<lambda>m. if Slug m = slug then m\<lparr>LastUsed := Some now\<rparr> else m) s) = map Slug s"
    by (induction s) auto
  then show "unique_slugs s \<Longrightarrow> ?thesis"
    by (simp add: unique_slugs_def UpdateModelLastUsed_def Let_def del: map_map)
qed

lemma unique_RemoveModel:
  "unique_slugs s \<Longrightarrow> unique_slugs (snd (RemoveModel oc s slug))"
  by (simp add: unique_slugs_def RemoveModel_def Let_def distinct_map_filter)

lemma Slug_rename:
  "map Slug (map (\<lambda>m. if Slug m = a then m\<lparr>Slug := b\<rparr> else m) s) =
   map (\<lambda>x. if x = a then b else x) (map Slug s)"
  by (induction s) auto

lemma list_ex_Slug: "list_ex (\<lambda>m. Slug m = a) s \<longleftrightarrow> a \<in> set (map Slug s)"
  by (auto simp: list_ex_iff)

lemma filter_Slug_empty: "filter (\<lambda>m. Slug m = a) s = [] \<longleftrightarrow> a \<notin> set (map Slug s)"
  by (auto simp: filter_empty_conv)

lemma unique_UpdateModelSlug:
  assumes "unique_slugs s"
  shows "unique_slugs (snd (UpdateModelSlug oc s a b))"
proof (cases "snd (UpdateModelSlug oc s a b) = s")
  case True
  with assms show ?thesis by simp
next
  case False
  then have upd: "snd (UpdateModelSlug oc s a b) = map (\<lambda>m. if Slug m = a then m\<lparr>Slug := b\<rparr> else m) s"
    by (auto simp: UpdateModelSlug_def Let_def split: if_splits)
  have fresh: "b \<notin> set (map Slug s)" if "a \<in> set (map Slug s)" "b \<noteq> a"
  proof -
    from that have "0 < length (filter (\<lambda>m. Slug m = a) s)"
      using filter_Slug_empty [of a s] by simp
    with False that show ?thesis
      by (auto simp: UpdateModelSlug_def Let_def list_ex_Slug split: if_splits)
  qed
  have "inj_on (\<lambda>x. if x = a then b else x) (set (map Slug s))"
    using fresh by (auto simp: inj_on_def split: if_splits)
  moreover from assms have "distinct (map Slug s)" by (simp add: unique_slugs_def)
  ultimately have "distinct (map (\<lambda>x. if x = a then b else x) (map Slug s))"
    by (subst distinct_map) simp
  then show ?thesis
    unfolding upd unique_slugs_def Slug_rename .
qed

lemma unique_Alias:
  "unique_slugs s \<Longrightarrow> unique_slugs (snd (Alias q1 q2 oc s a b))"
  using unique_UpdateModelSlug [of s oc a b]
  by (auto simp: Alias_def split: sum.splits prod.splits option.splits)

lemma unique_apply_op: "unique_slugs s \<Longrightarrow> unique_slugs (apply_op op s)"
  by (cases op)
     (simp_all add: unique_AddModel unique_UpdateModelLastUsed unique_RemoveModel
        unique_UpdateModelSlug unique_Alias)

lemma unique_run_ops: "unique_slugs s \<Longrightarrow> unique_slugs (run_ops ops s)"
  unfolding run_ops_def by (induction ops arbitrary: s) (simp_all add: unique_apply_op)

text \<open>
  C5. In every state of the store that its operations (\<open>AddModel\<close>,
  \<open>UpdateModelLastUsed\<close>, \<open>RemoveModel\<close>, \<open>UpdateModelSlug\<close>, \<open>Alias\<close>) reach from the
  empty table, whatever the driver does, no two records share a slug; and every
  operation keeps it so.
\<close>

theorem slug_unique_in_every_reachable_store:
  "unique_slugs (run_ops ops []) \<and> (unique_slugs s \<longrightarrow> unique_slugs (apply_op op s))"
  using unique_run_ops [of "[]" ops] unique_apply_op [of s op] by (simp add: unique_slugs_def)

theorem slug_unique_in_every_reachable_store_witness:
  "unique_slugs
     (run_ops
        [OpAddModel True 10 ''a-b'' ''A/b'' ''m.gguf'' ''/models/A/b/m.gguf'' ''1M'',
         OpAddModel True 20 ''a-b'' ''a/B'' ''n.gguf'' ''/models/a/B/n.gguf'' ''2M'',
         OpAddModel True 30 ''c-d'' ''c/d'' ''o.gguf'' ''/models/c/d/o.gguf'' ''3M'',
         OpUpdateModelSlug Executes ''c-d'' ''a-b'',
         OpAlias True True Executes ''a-b'' ''x''] []) \<and>
   map Slug
     (run_ops
        [OpAddModel True 10 ''a-b'' ''A/b'' ''m.gguf'' ''/models/A/b/m.gguf'' ''1M'',
         OpAddModel True 20 ''a-b'' ''a/B'' ''n.gguf'' ''/models/a/B/n.gguf'' ''2M'',
         OpAddModel True 30 ''c-d'' ''c/d'' ''o.gguf'' ''/models/c/d/o.gguf'' ''3M'',
         OpUpdateModelSlug Executes ''c-d'' ''a-b'',
         OpAlias True True Executes ''a-b'' ''x''] []) = [''x'', ''c-d''] \<and>
   unique_slugs
     [\<lparr>ID = 1, Slug = ''a-b'', ModelID = ''A/b'', FileName = ''m.gguf'',
       FilePath = ''/models/A/b/m.gguf'', FileSize = ''1M'', CreatedAt = 10, LastUsed = None\<rparr>] \<and>
   unique_slugs
     (apply_op (OpAddModel True 20 ''a-b'' ''a/B'' ''n.gguf'' ''/models/a/B/n.gguf'' ''2M'')
        [\<lparr>ID = 1, Slug = ''a-b'', ModelID = ''A/b'', FileName = ''m.gguf'',
          FilePath = ''/models/A/b/m.gguf'', FileSize = ''1M'', CreatedAt = 10, LastUsed = None\<rparr>])"
proof -
  let ?ops = "[OpAddModel True 10 ''a-b'' ''A/b'' ''m.gguf'' ''/models/A/b/m.gguf'' ''1M'',
         OpAddModel True 20 ''a-b'' ''a/B'' ''n.gguf'' ''/models/a/B/n.gguf'' ''2M'',
         OpAddModel True 30 ''c-d'' ''c/d'' ''o.gguf'' ''/models/c/d/o.gguf'' ''3M'',
         OpUpdateModelSlug Executes ''c-d'' ''a-b'',
         OpAlias True True Executes ''a-b'' ''x'']"
  let ?s = "[\<lparr>ID = 1, Slug = ''a-b'', ModelID = ''A/b'', FileName = ''m.gguf'',
       FilePath = ''/models/A/b/m.gguf'', FileSize = ''1M'', CreatedAt = 10, LastUsed = None\<rparr>]"
  let ?op = "OpAddModel True 20 ''a-b'' ''a/B'' ''n.gguf'' ''/models/a/B/n.gguf'' ''2M''"
  have pre: "unique_slugs ?s" by (simp add: unique_slugs_def)
  from slug_unique_in_every_reachable_store [of ?ops ?s ?op] pre
  have "unique_slugs (run_ops ?ops []) \<and> unique_slugs (apply_op ?op ?s)" by blast
  moreover have "map Slug (run_ops ?ops []) = [''x'', ''c-d'']"
    by (simp add: run_ops_def AddModel_def UpdateModelSlug_def Alias_def GetModelBySlug_def
          new_rowid_def Let_def)
  ultimately show ?thesis using pre by blast
qed

section \<open>Renaming onto a slug in use\<close>

lemma find_Slug_Some:
  "list_ex (\<lambda>m. Slug m = a) s \<Longrightarrow> \<exists>m. find (\<lambda>m. Slug m = a) s = Some m"
  by (induction s) auto

lemma rename_same: "map (\<lambda>m. if Slug m = a then m\<lparr>Slug := a\<rparr> else m) s = s"
  by (induction s) auto

lemma UpdateModelSlug_onto_existing:
  assumes "list_ex (\<lambda>m. Slug m = b) s"
  shows "snd (UpdateModelSlug oc s a b) = s"
proof (cases "b = a")
  case True
  then show ?thesis by (simp add: UpdateModelSlug_def Let_def rename_same)
next
  case False
  have "map (\<lambda>m. if Slug m = a then m\<lparr>Slug := b\<rparr> else m) s = s"
    if "filter (\<lambda>m. Slug m = a) s = []"
    using that by (induction s) (auto split: if_splits)
  with False assms show ?thesis
    by (auto simp: UpdateModelSlug_def Let_def)
qed

text \<open>
  C10. When a record with the slug \<open>newSlug\<close> exists, \<open>Alias oldSlug newSlug\<close> leaves
  the store as it is, whatever the driver does; and when a record with the slug
  \<open>oldSlug\<close> exists too and both lookups run, it fails with the error "model with slug
  ... already exists": the record under \<open>oldSlug\<close> keeps its slug and the record under
  \<open>newSlug\<close> is not overwritten.
\<close>

theorem Alias_onto_existing_slug:
  assumes "list_ex (\<lambda>m. Slug m = newSlug) s"
  shows "snd (Alias q1 q2 oc s oldSlug newSlug) = s \<and>
         (list_ex (\<lambda>m. Slug m = oldSlug) s \<longrightarrow>
            Alias True True oc s oldSlug newSlug = (Some (SlugExists newSlug), s) \<and>
            GetModelBySlug True (snd (Alias True True oc s oldSlug newSlug)) oldSlug =
              GetModelBySlug True s oldSlug \<and>
            GetModelBySlug True (snd (Alias True True oc s oldSlug newSlug)) newSlug =
              GetModelBySlug True s newSlug)"
proof -
  have unchanged: "snd (Alias q1 q2 oc s oldSlug newSlug) = s"
    using UpdateModelSlug_onto_existing [OF assms, of oc oldSlug]
    by (auto simp: Alias_def split: sum.splits prod.splits option.splits)
  have "Alias True True oc s oldSlug newSlug = (Some (SlugExists newSlug), s)"
    if "list_ex (\<lambda>m. Slug m = oldSlug) s"
    using find_Slug_Some [OF that] find_Slug_Some [OF assms]
    by (auto simp: Alias_def GetModelBySlug_def)
  then show ?thesis using unchanged by simp
qed

theorem Alias_onto_existing_slug_witness:
  "Alias True True Executes
     [\<lparr>ID = 1, Slug = ''a'', ModelID = ''x/a'', FileName = ''a.gguf'',
       FilePath = ''/models/x/a/a.gguf'', FileSize = ''1M'', CreatedAt = 10, LastUsed = None\<rparr>,
      \<lparr>ID = 2, Slug = ''b'', ModelID = ''x/b'', FileName = ''b.gguf'',
       FilePath = ''/models/x/b/b.gguf'', FileSize = ''2M'', CreatedAt = 20, LastUsed = None\<rparr>]
     ''a'' ''b'' =
   (Some (SlugExists ''b''),
     [\<lparr>ID = 1, Slug = ''a'', ModelID = ''x/a'', FileName = ''a.gguf'',
       FilePath = ''/models/x/a/a.gguf'', FileSize = ''1M'', CreatedAt = 10, LastUsed = None\<rparr>,
      \<lparr>ID = 2, Slug = ''b'', ModelID = ''x/b'', FileName = ''b.gguf'',
       FilePath = ''/models/x/b/b.gguf'', FileSize = ''2M'', CreatedAt = 20, LastUsed = None\<rparr>])"
proof -
  let ?s = "[\<lparr>ID = 1, Slug = ''a'', ModelID = ''x/a'', FileName = ''a.gguf'',
       FilePath = ''/models/x/a/a.gguf'', FileSize = ''1M'', CreatedAt = 10, LastUsed = None\<rparr>,
      \<lparr>ID = 2, Slug = ''b'', ModelID = ''x/b'', FileName = ''b.gguf'',
       FilePath = ''/models/x/b/b.gguf'', FileSize = ''2M'', CreatedAt = 20, LastUsed = None\<rparr>]"
  have new: "list_ex (\<lambda>m. Slug m = ''b'') ?s" by simp
  have old: "list_ex (\<lambda>m. Slug m = ''a'') ?s" by simp
  from Alias_onto_existing_slug [OF new, of True True Executes "''a''"] old
  show ?thesis by blast
qed

section \<open>Removing a model\<close>

lemma find_Slug_D: "find (\<lambda>m. Slug m = a) s = Some m \<Longrightarrow> filter (\<lambda>m. Slug m = a) s \<noteq> []"
  by (induction s) (auto split: if_splits)

text \<open>
  C1, as the source has it. \<open>Remove\<close> deletes the backing file first and the record
  second: a record is deleted only when the file is gone. So \<open>Remove\<close> never leaves
  the file without its record (when the file is still on disk afterwards, neither the
  disk nor the store has changed and an error is returned); what a failure between the
  two steps leaves is the record without its file.
\<close>

theorem Remove_file_first_record_second:
  assumes "GetModelBySlug True s slug = Inr model"
  shows "(snd (snd (Remove q allowed oc files s slug)) \<noteq> s \<longrightarrow>
            FilePath model \<notin> fst (snd (Remove q allowed oc files s slug))) \<and>
         (FilePath model \<in> fst (snd (Remove q allowed oc files s slug)) \<longrightarrow>
            snd (Remove q allowed oc files s slug) = (files, s) \<and>
            fst (Remove q allowed oc files s slug) \<noteq> None) \<and>
         (fst (Remove q allowed oc files s slug) = None \<longrightarrow>
            snd (Remove q allowed oc files s slug) =
              (files - {FilePath model}, filter (\<lambda>m. Slug m \<noteq> slug) s)) \<and>
         (FilePath model \<in> files \<longrightarrow>
            Remove True True ExecFails files s slug =
              (Some (Wrap ''deleting model'' DriverError), files - {FilePath model}, s))"
proof -
  from assms have f: "find (\<lambda>m. Slug m = slug) s = Some model"
    by (simp add: GetModelBySlug_def split: option.splits)
  note ne = find_Slug_D [OF f]
  show ?thesis
    using f ne
    by (cases q; cases oc)
       (auto simp: Remove_def GetModelBySlug_def os_Remove_def RemoveModel_def Let_def)
qed

theorem Remove_file_first_record_second_witness:
  "GetModelBySlug True
     [\<lparr>ID = 1, Slug = ''m'', ModelID = ''x/m'', FileName = ''m.gguf'',
       FilePath = ''/models/x/m/m.gguf'', FileSize = ''1M'', CreatedAt = 10, LastUsed = None\<rparr>] ''m'' =
   Inr \<lparr>ID = 1, Slug = ''m'', ModelID = ''x/m'', FileName = ''m.gguf'',
        FilePath = ''/models/x/m/m.gguf'', FileSize = ''1M'', CreatedAt = 10, LastUsed = None\<rparr> \<and>
   Remove True True Executes {''/models/x/m/m.gguf'', ''/models/x/m/README.md''}
     [\<lparr>ID = 1, Slug = ''m'', ModelID = ''x/m'', FileName = ''m.gguf'',
       FilePath = ''/models/x/m/m.gguf'', FileSize = ''1M'', CreatedAt = 10, LastUsed = None\<rparr>] ''m'' =
   (None, {''/models/x/m/README.md''}, [])"
proof -
  let ?r = "\<lparr>ID = 1, Slug = ''m'', ModelID = ''x/m'', FileName = ''m.gguf'',
       FilePath = ''/models/x/m/m.gguf'', FileSize = ''1M'', CreatedAt = 10, LastUsed = None\<rparr>"
  let ?files = "{''/models/x/m/m.gguf'', ''/models/x/m/README.md''}"
  have found: "GetModelBySlug True [?r] ''m'' = Inr ?r"
    by (simp add: GetModelBySlug_def)
  have ok: "fst (Remove True True Executes ?files [?r] ''m'') = None"
    by (simp add: Remove_def GetModelBySlug_def os_Remove_def RemoveModel_def)
  from Remove_file_first_record_second [OF found, of True True Executes ?files] ok
  have "snd (Remove True True Executes ?files [?r] ''m'') =
          (?files - {FilePath ?r}, filter (\<lambda>m. Slug m \<noteq> ''m'') [?r])"
    by blast
  then have "snd (Remove True True Executes ?files [?r] ''m'') = ({''/models/x/m/README.md''}, [])"
    by simp
  with ok found show ?thesis by (metis prod.collapse)
qed

text \<open>
  C1, as the claim has it: a partial failure of \<open>Remove\<close> never leaves a record whose
  backing file is gone. It does: when the file has been deleted and the \<open>DELETE\<close>
  fails, \<open>Remove\<close> returns the error, the file is gone and its record is still there.
\<close>

theorem Remove_leaves_orphaned_record:
  "fst (Remove True True ExecFails {''/models/x/m/m.gguf''}
     [\<lparr>ID = 1, Slug = ''m'', ModelID = ''x/m'', FileName = ''m.gguf'',
       FilePath = ''/models/x/m/m.gguf'', FileSize = ''1M'', CreatedAt = 10, LastUsed = None\<rparr>] ''m'') =
     Some (Wrap ''deleting model'' DriverError) \<and>
   ''/models/x/m/m.gguf'' \<notin>
     fst (snd (Remove True True ExecFails {''/models/x/m/m.gguf''}
       [\<lparr>ID = 1, Slug = ''m'', ModelID = ''x/m'', FileName = ''m.gguf'',
         FilePath = ''/models/x/m/m.gguf'', FileSize = ''1M'', CreatedAt = 10, LastUsed = None\<rparr>] ''m'')) \<and>
   GetModelBySlug True
     (snd (snd (Remove True True ExecFails {''/models/x/m/m.gguf''}
       [\<lparr>ID = 1, Slug = ''m'', ModelID = ''x/m'', FileName = ''m.gguf'',
         FilePath = ''/models/x/m/m.gguf'', FileSize = ''1M'', CreatedAt = 10, LastUsed = None\<rparr>] ''m''))) ''m'' =
     Inr \<lparr>ID = 1, Slug = ''m'', ModelID = ''x/m'', FileName = ''m.gguf'',
          FilePath = ''/models/x/m/m.gguf'', FileSize = ''1M'', CreatedAt = 10, LastUsed = None\<rparr>"
  by (simp add: Remove_def GetModelBySlug_def os_Remove_def RemoveModel_def)

section \<open>The slug beyond ASCII\<close>

lemma runes_ascii:
  "list_all (\<lambda>c. (of_char c :: nat) < 128) s \<Longrightarrow> runes s = map of_char s"
  by (induction s) (simp_all add: DecodeRune_def Let_def)

lemma char_eq_code: "c = char_of (n::nat) \<longleftrightarrow> of_char c = n" if "n < 256"
proof
  assume "c = char_of n"
  with that show "of_char c = n" by simp
next
  assume "of_char c = n"
  then have "char_of (of_char c :: nat) = (char_of n :: char)" by simp
  then show "c = char_of n" by simp
qed

lemma slash_code: "c = CHR ''/'' \<longleftrightarrow> (of_char c :: nat) = 47"
  using char_eq_code [of 47 c] by (simp add: char_of_def bit_Suc_0_iff)

lemma hyphen_code: "c = CHR ''-'' \<longleftrightarrow> (of_char c :: nat) = 45"
  using char_eq_code [of 45 c] by (simp add: char_of_def bit_Suc_0_iff)

lemma hyphen_code': "CHR ''-'' = c \<longleftrightarrow> (of_char c :: nat) = 45"
  using hyphen_code [of c] by auto

lemma slash_code': "CHR ''/'' = c \<longleftrightarrow> (of_char c :: nat) = 47"
  using slash_code [of c] by auto

lemma ReplaceAll_one: "ReplaceAll s old [new] = map (\<lambda>c. if c = old then new else c) s"
  by (induction s) (simp_all add: ReplaceAll_def)

lemma ReplaceAllString_one:
  "ReplaceAllString cls s [new] = map (\<lambda>c. if cls c then new else c) s"
  by (induction s) (simp_all add: ReplaceAllString_def)

lemma slug_byte_ascii:
  assumes "(of_char c :: nat) < 128"
  shows "char_of ((\<lambda>r. if in_slug_class r then r else 0x2D)
           ((\<lambda>r. if r = 0x2F then 0x2D else r) (lowerRune ul (of_char c)))) =
         (\<lambda>c. if cls_not_slug c then CHR ''-'' else c)
           ((\<lambda>c. if c = CHR ''/'' then CHR ''-'' else c) (toLowerByte c))"
proof (cases "in_range CHR ''A'' CHR ''Z'' c")
  case True
  then have r: "65 \<le> (of_char c :: nat)" "(of_char c :: nat) \<le> 90"
    by (simp_all add: in_range_def)
  then have "of_char (char_of (of_char c + (32::nat)) :: char) = (of_char c + 32 :: nat)"
    by simp
  with r True show ?thesis
    by (simp add: lowerRune_def toLowerByte_def in_slug_class_def cls_not_slug_def in_range_def
          slash_code hyphen_code)
next
  case False
  have h: "char_of (45::nat) = CHR ''-''" by (simp add: char_of_def bit_Suc_0_iff)
  from False assms show ?thesis
    by (auto simp: lowerRune_def toLowerByte_def in_slug_class_def cls_not_slug_def in_range_def
          slash_code hyphen_code slash_code' hyphen_code' h)
qed

lemma generateSlug_runes_ascii:
  assumes "list_all (\<lambda>c. (of_char c :: nat) < 128) s"
  shows "generateSlug_runes ul s = generateSlug s"
proof -
  define f where "f = (\<lambda>c. char_of ((\<lambda>r. if in_slug_class r then r else 0x2D)
           ((\<lambda>r. if r = 0x2F then 0x2D else r) (lowerRune ul (of_char c)))) :: char)"
  define g where "g = (\<lambda>c. (\<lambda>c. if cls_not_slug c then CHR ''-'' else c)
           ((\<lambda>c. if c = CHR ''/'' then CHR ''-'' else c) (toLowerByte c)))"
  have "f c = g c" if "(of_char c :: nat) < 128" for c
    unfolding f_def g_def using that by (rule slug_byte_ascii)
  with assms have fg: "map f s = map g s"
    by (simp add: list_all_iff)
  moreover have "generateSlug_runes ul s = Trim (map f s) ''-''"
    by (simp add: generateSlug_runes_def Let_def runes_ascii [OF assms] f_def comp_def)
  moreover have "generateSlug s = Trim (map g s) ''-''"
    by (simp add: generateSlug_def Let_def ReplaceAll_one ReplaceAllString_one ToLower_def
          g_def comp_def)
  ultimately show ?thesis by (simp only:)
qed

section \<open>Importing\<close>

lemma AddModel_keeps_slugs:
  "a \<in> Slug ` set s \<Longrightarrow> a \<in> Slug ` set (snd (AddModel ok now s slug modelID fileName filePath fileSize))"
  by (cases "a = slug") (auto simp: AddModel_def)

lemma AddModel_has_slug:
  "slug \<in> Slug ` set (snd (AddModel True now s slug modelID fileName filePath fileSize))"
  by (simp add: AddModel_def)

lemma AddModel_keeps_record:
  "m \<in> set s \<Longrightarrow> ok \<longrightarrow> slug \<noteq> Slug m \<Longrightarrow>
   m \<in> set (snd (AddModel ok now s slug modelID fileName filePath fileSize))"
  by (auto simp: AddModel_def)

lemma AddModel_origin:
  "m \<in> set (snd (AddModel ok now s slug modelID fileName filePath fileSize)) \<Longrightarrow>
   m \<in> set s \<or>
   (ok \<and> Slug m = slug \<and> ModelID m = modelID \<and> FileName m = fileName \<and> FilePath m = filePath \<and>
    FileSize m = fileSize \<and> CreatedAt m = now \<and> LastUsed m = None)"
  by (auto simp: AddModel_def split: if_splits)

lemma walkFn_no_error: "\<not> v_err v \<Longrightarrow> fst (walkFn ul dir s v) = None"
  by (simp add: walkFn_def Let_def del: itoa.simps split: prod.splits option.splits)

lemma walkFn_error: "v_err v \<Longrightarrow> walkFn ul dir s v = (Some OSError, s, [])"
  by (simp add: walkFn_def)

lemma walkFn_store:
  "fst (snd (walkFn ul dir s v)) =
     (if \<not> v_err v \<and> is_model_file dir v
      then snd (AddModel (v_insert_ok v) (v_now v) s (import_slug ul v)
                  (import_modelID (v_names v)) (Base (v_path dir v)) (v_path dir v)
                  (itoa (v_size v div (1024 * 1024)) @ ''M''))
      else s)"
  by (simp add: walkFn_def Let_def AddModel_def is_model_file_def import_slug_def del: itoa.simps)

lemma walkFn_warns:
  "\<not> v_err v \<Longrightarrow> is_model_file dir v \<Longrightarrow> \<not> v_insert_ok v \<Longrightarrow>
   snd (snd (walkFn ul dir s v)) = [WarnImportFailed (v_path dir v) (Wrap ''inserting model'' DriverError)]"
  by (simp add: walkFn_def Let_def AddModel_def is_model_file_def del: itoa.simps)

lemma walkFn_keeps_slugs:
  "a \<in> Slug ` set s \<Longrightarrow> a \<in> Slug ` set (fst (snd (walkFn ul dir s v)))"
  unfolding walkFn_store using AddModel_keeps_slugs by (simp del: itoa.simps)

lemma walkFn_keeps_record:
  "m \<in> set s \<Longrightarrow> \<not> (is_model_file dir w \<and> v_insert_ok w \<and> import_slug ul w = Slug m) \<Longrightarrow>
   m \<in> set (fst (snd (walkFn ul dir s w)))"
  unfolding walkFn_store using AddModel_keeps_record [of m s "v_insert_ok w" "import_slug ul w"]
  by (auto simp del: itoa.simps)

lemma walkFn_writes_record:
  "\<not> v_err v \<Longrightarrow> is_model_file dir v \<Longrightarrow> v_insert_ok v \<Longrightarrow>
   \<exists>m \<in> set (fst (snd (walkFn ul dir s v))). is_record_of ul dir v m"
  unfolding walkFn_store by (simp add: AddModel_def is_record_of_def del: itoa.simps)

lemma walkFn_origin:
  "m \<in> set (fst (snd (walkFn ul dir s v))) \<Longrightarrow>
   m \<in> set s \<or> (\<not> v_err v \<and> is_model_file dir v \<and> v_insert_ok v \<and> is_record_of ul dir v m)"
  unfolding walkFn_store is_record_of_def
  using AddModel_origin [of m "v_insert_ok v" "v_now v" s "import_slug ul v"]
  by (auto simp del: itoa.simps split: if_splits)

lemma walkFn_imports:
  assumes "\<not> v_err v" "is_model_file dir v"
  shows "if v_insert_ok v
         then import_slug ul v \<in> Slug ` set (fst (snd (walkFn ul dir s v)))
         else WarnImportFailed (v_path dir v) (Wrap ''inserting model'' DriverError)
                \<in> set (snd (snd (walkFn ul dir s v)))"
proof (cases "v_insert_ok v")
  case True
  with assms show ?thesis
    unfolding walkFn_store using AddModel_has_slug by (simp del: itoa.simps)
next
  case False
  with assms show ?thesis by (simp add: walkFn_warns)
qed

lemma Walk_step:
  "fst (walkFn ul dir s v) = None \<Longrightarrow>
   Walk ul dir s (v # vs) =
     (fst (Walk ul dir (fst (snd (walkFn ul dir s v))) vs),
      fst (snd (Walk ul dir (fst (snd (walkFn ul dir s v))) vs)),
      snd (snd (walkFn ul dir s v)) @ snd (snd (Walk ul dir (fst (snd (walkFn ul dir s v))) vs)))"
  by (cases "walkFn ul dir s v") (simp split: prod.splits)

lemma Walk_stop:
  "fst (walkFn ul dir s v) = Some e \<Longrightarrow> Walk ul dir s (v # vs) = walkFn ul dir s v"
  by (cases "walkFn ul dir s v") simp

lemma Walk_no_error: "list_all (\<lambda>v. \<not> v_err v) vs \<Longrightarrow> fst (Walk ul dir s vs) = None"
  by (induction vs arbitrary: s) (simp_all add: Walk_step walkFn_no_error del: Walk.simps(2))

lemma Walk_keeps_slugs:
  "a \<in> Slug ` set s \<Longrightarrow> a \<in> Slug ` set (fst (snd (Walk ul dir s vs)))"
proof (induction vs arbitrary: s)
  case Nil
  then show ?case by simp
next
  case (Cons v vs)
  note keep = walkFn_keeps_slugs [OF Cons.prems, of ul dir v]
  show ?case
  proof (cases "fst (walkFn ul dir s v)")
    case None
    from Cons.IH [OF keep] show ?thesis by (simp add: Walk_step [OF None] del: Walk.simps(2))
  next
    case (Some e)
    with keep show ?thesis by (simp add: Walk_stop [OF Some] del: Walk.simps(2))
  qed
qed

lemma Walk_keeps_record:
  "m \<in> set s \<Longrightarrow>
   list_all (\<lambda>w. \<not> (is_model_file dir w \<and> v_insert_ok w \<and> import_slug ul w = Slug m)) vs \<Longrightarrow>
   m \<in> set (fst (snd (Walk ul dir s vs)))"
proof (induction vs arbitrary: s)
  case Nil
  then show ?case by simp
next
  case (Cons v vs)
  from Cons.prems have keep: "m \<in> set (fst (snd (walkFn ul dir s v)))"
    by (intro walkFn_keeps_record) simp_all
  from Cons.prems have
    rest: "list_all (\<lambda>w. \<not> (is_model_file dir w \<and> v_insert_ok w \<and> import_slug ul w = Slug m)) vs"
    by simp
  show ?case
  proof (cases "fst (walkFn ul dir s v)")
    case None
    from Cons.IH [OF keep rest] show ?thesis
      by (simp add: Walk_step [OF None] del: Walk.simps(2))
  next
    case (Some e)
    with keep show ?thesis by (simp add: Walk_stop [OF Some] del: Walk.simps(2))
  qed
qed

lemma Walk_origin:
  "m \<in> set (fst (snd (Walk ul dir s vs))) \<Longrightarrow>
   m \<in> set s \<or>
   list_ex (\<lambda>v. \<not> v_err v \<and> is_model_file dir v \<and> v_insert_ok v \<and> is_record_of ul dir v m) vs"
proof (induction vs arbitrary: s)
  case Nil
  then show ?case by simp
next
  case (Cons v vs)
  show ?case
  proof (cases "fst (walkFn ul dir s v)")
    case None
    from Cons.prems have "m \<in> set (fst (snd (Walk ul dir (fst (snd (walkFn ul dir s v))) vs)))"
      by (simp add: Walk_step [OF None] del: Walk.simps(2))
    from Cons.IH [OF this] walkFn_origin [of m ul dir s v] show ?thesis by auto
  next
    case (Some e)
    with Cons.prems have "m \<in> set (fst (snd (walkFn ul dir s v)))"
      by (simp add: Walk_stop [OF Some] del: Walk.simps(2))
    with walkFn_origin [of m ul dir s v] show ?thesis by auto
  qed
qed

lemma Walk_append:
  "fst (Walk ul dir s pre) = None \<Longrightarrow>
   fst (snd (Walk ul dir s (pre @ post))) =
     fst (snd (Walk ul dir (fst (snd (Walk ul dir s pre))) post))"
proof (induction pre arbitrary: s)
  case Nil
  then show ?case by simp
next
  case (Cons v vs)
  show ?case
  proof (cases "fst (walkFn ul dir s v)")
    case None
    with Cons.prems have "fst (Walk ul dir (fst (snd (walkFn ul dir s v))) vs) = None"
      by (simp add: Walk_step [OF None] del: Walk.simps(2))
    from Cons.IH [OF this] show ?thesis
      using Walk_step [OF None, of vs] Walk_step [OF None, of "vs @ post"] by simp
  next
    case (Some e)
    with Cons.prems show ?thesis by (simp add: Walk_stop [OF Some] del: Walk.simps(2))
  qed
qed

lemma Walk_imports:
  assumes "list_all (\<lambda>v. \<not> v_err v) vs" "v \<in> set vs" "is_model_file dir v"
  shows "if v_insert_ok v
         then import_slug ul v \<in> Slug ` set (fst (snd (Walk ul dir s vs)))
         else WarnImportFailed (v_path dir v) (Wrap ''inserting model'' DriverError)
                \<in> set (snd (snd (Walk ul dir s vs)))"
  using assms(1,2)
proof (induction vs arbitrary: s)
  case Nil
  then show ?case by simp
next
  case (Cons w ws)
  then have w: "fst (walkFn ul dir s w) = None" by (simp add: walkFn_no_error)
  note step = Walk_step [OF w, of ws]
  show ?case
  proof (cases "v = w")
    case True
    from Cons.prems(1) have nw: "\<not> v_err w" by simp
    note imp = walkFn_imports [OF nw assms(3) [unfolded True], of ul s]
    show ?thesis
      unfolding True
      using imp Walk_keeps_slugs [of _ "fst (snd (walkFn ul dir s w))" ul dir ws]
      by (auto simp: step simp del: Walk.simps(2) split: if_splits)
  next
    case False
    with Cons.prems have "v \<in> set ws" "list_all (\<lambda>v. \<not> v_err v) ws" by simp_all
    from Cons.IH [OF this(2,1)] show ?thesis
      by (auto simp: step simp del: Walk.simps(2) split: if_splits)
  qed
qed

lemma Walk_writes_record:
  assumes "list_all (\<lambda>w. \<not> v_err w) (before @ v # after)" "is_model_file dir v" "v_insert_ok v"
    and "list_all (\<lambda>w. \<not> (is_model_file dir w \<and> v_insert_ok w \<and>
                          import_slug ul w = import_slug ul v)) after"
  shows "list_ex (is_record_of ul dir v) (fst (snd (Walk ul dir s (before @ v # after))))"
proof -
  from assms(1) have ok: "list_all (\<lambda>w. \<not> v_err w) before" "\<not> v_err v" by simp_all
  define s1 where "s1 = fst (snd (Walk ul dir s before))"
  have split: "fst (snd (Walk ul dir s (before @ v # after))) = fst (snd (Walk ul dir s1 (v # after)))"
    unfolding s1_def using Walk_no_error [OF ok(1)] by (rule Walk_append)
  have nv: "fst (walkFn ul dir s1 v) = None" using ok(2) by (rule walkFn_no_error)
  obtain m where m: "m \<in> set (fst (snd (walkFn ul dir s1 v)))" "is_record_of ul dir v m"
    using walkFn_writes_record [OF ok(2) assms(2,3), of ul s1] by blast
  then have "Slug m = import_slug ul v" by (simp add: is_record_of_def)
  with assms(4) have
    "list_all (\<lambda>w. \<not> (is_model_file dir w \<and> v_insert_ok w \<and> import_slug ul w = Slug m)) after"
    by simp
  from Walk_keeps_record [OF m(1) this]
  have "m \<in> set (fst (snd (Walk ul dir s1 (v # after))))"
    by (simp add: Walk_step [OF nv] del: Walk.simps(2))
  with m(2) show ?thesis unfolding split by (auto simp: list_ex_iff)
qed

lemma Walk_aborts:
  assumes "list_all (\<lambda>v. \<not> v_err v) pre" "v_err v"
  shows "Walk ul dir s (pre @ v # post) =
           (Some OSError, fst (snd (Walk ul dir s pre)), snd (snd (Walk ul dir s pre)))"
  using assms(1)
proof (induction pre arbitrary: s)
  case Nil
  with assms(2) show ?case by (simp add: walkFn_error)
next
  case (Cons w ws)
  then have w: "fst (walkFn ul dir s w) = None" by (simp add: walkFn_no_error)
  from Cons show ?case
    by (simp add: Walk_step [OF w] del: Walk.simps(2))
qed

text \<open>
  C6, as the source has it. When Walk reports no error for any path, \<open>ImportExisting\<close>
  returns no error whichever inserts fail, and for every file at least one directory
  below the root whose path ends in \<open>.gguf\<close> (in any case of the letters): when its
  insert runs, the store holds a record under its slug at the end, and that record is
  the file's own, with its identifier, name, path and size, unless a later file of the
  walk has taken the slug; when its insert fails, the failure is in the log and the
  walk goes on. The store gains no other record: not for a directory, a file of another
  name or a file directly in the root. An error that Walk reports for a path ends the
  walk there: \<open>ImportExisting\<close> returns the error "walking models directory", and the
  store is as the visits before that path have left it.
\<close>

theorem ImportExisting_continues_past_failed_inserts:
  "(list_all (\<lambda>v. \<not> v_err v) visits \<longrightarrow>
      fst (ImportExisting ul dir s visits) = None \<and>
      (\<forall>v \<in> set visits. is_model_file dir v \<longrightarrow>
         (if v_insert_ok v
          then list_ex (\<lambda>m. Slug m = import_slug ul v) (fst (snd (ImportExisting ul dir s visits)))
          else WarnImportFailed (v_path dir v) (Wrap ''inserting model'' DriverError)
                 \<in> set (snd (snd (ImportExisting ul dir s visits)))))) \<and>
   (list_all (\<lambda>w. \<not> v_err w) (before @ v # after) \<and> is_model_file dir v \<and> v_insert_ok v \<and>
    list_all (\<lambda>w. \<not> (is_model_file dir w \<and> v_insert_ok w \<and>
                      import_slug ul w = import_slug ul v)) after \<longrightarrow>
      list_ex (is_record_of ul dir v) (fst (snd (ImportExisting ul dir s (before @ v # after))))) \<and>
   (\<forall>m \<in> set (fst (snd (ImportExisting ul dir s visits))).
      m \<in> set s \<or>
      list_ex (\<lambda>v. \<not> v_err v \<and> is_model_file dir v \<and> v_insert_ok v \<and> is_record_of ul dir v m)
        visits) \<and>
   (list_all (\<lambda>v. \<not> v_err v) pre \<and> v_err bad \<longrightarrow>
      fst (ImportExisting ul dir s (pre @ bad # post)) =
        Some (Wrap ''walking models directory'' OSError) \<and>
      fst (snd (ImportExisting ul dir s (pre @ bad # post))) =
        fst (snd (ImportExisting ul dir s pre)))"
proof -
  have split: "ImportExisting ul dir s vs =
      (case fst (Walk ul dir s vs) of
         Some err \<Rightarrow> (Some (Wrap ''walking models directory'' err), fst (snd (Walk ul dir s vs)),
                      InfoScanning dir # snd (snd (Walk ul dir s vs)))
       | None \<Rightarrow> (None, fst (snd (Walk ul dir s vs)),
                  InfoScanning dir # snd (snd (Walk ul dir s vs)) @ [InfoImportCompleted]))" for vs
    by (cases "Walk ul dir s vs") (simp add: ImportExisting_def split: option.splits)
  have store: "fst (snd (ImportExisting ul dir s vs)) = fst (snd (Walk ul dir s vs))" for vs
    by (simp add: split split: option.splits)
  have a: "fst (ImportExisting ul dir s visits) = None"
    if "list_all (\<lambda>v. \<not> v_err v) visits"
    using Walk_no_error [OF that, of ul dir s] by (simp add: split)
  have b: "if v_insert_ok v
          then list_ex (\<lambda>m. Slug m = import_slug ul v) (fst (snd (ImportExisting ul dir s visits)))
          else WarnImportFailed (v_path dir v) (Wrap ''inserting model'' DriverError)
                 \<in> set (snd (snd (ImportExisting ul dir s visits)))"
    if "list_all (\<lambda>v. \<not> v_err v) visits" "v \<in> set visits" "is_model_file dir v" for v
    using Walk_imports [OF that, of ul s] Walk_no_error [OF that(1), of ul dir s]
    by (auto simp: split list_ex_iff split: if_splits)
  have c: "list_ex (is_record_of ul dir v) (fst (snd (ImportExisting ul dir s (before @ v # after))))"
    if "list_all (\<lambda>w. \<not> v_err w) (before @ v # after)" "is_model_file dir v" "v_insert_ok v"
      "list_all (\<lambda>w. \<not> (is_model_file dir w \<and> v_insert_ok w \<and>
                        import_slug ul w = import_slug ul v)) after"
    unfolding store using that by (rule Walk_writes_record)
  have d: "m \<in> set s \<or>
      list_ex (\<lambda>v. \<not> v_err v \<and> is_model_file dir v \<and> v_insert_ok v \<and> is_record_of ul dir v m)
        visits"
    if "m \<in> set (fst (snd (ImportExisting ul dir s visits)))" for m
    using that unfolding store by (rule Walk_origin)
  have e: "fst (ImportExisting ul dir s (pre @ bad # post)) =
        Some (Wrap ''walking models directory'' OSError) \<and>
      fst (snd (ImportExisting ul dir s (pre @ bad # post))) =
        fst (snd (ImportExisting ul dir s pre))"
    if "list_all (\<lambda>v. \<not> v_err v) pre" "v_err bad"
    using Walk_aborts [OF that, of ul dir s post] Walk_no_error [OF that(1), of ul dir s]
    by (simp add: split)
  from a b c d e show ?thesis by blast
qed

lemmas path_eval = v_path_def filepath_Join_def Clean_def clean_step_def HasPrefix_def
  HasSuffix_def ToLower_def toLowerByte_def in_range_def is_gguf_file_def is_model_file_def
  import_modelID_def char_of_def bit_Suc_0_iff

lemmas slug_eval = import_slug_def import_modelID_def generateSlug_runes_def DecodeRune_def
  first_byte_def RuneError_def lowerRune_def in_slug_class_def Trim_def Let_def char_of_def
  bit_Suc_0_iff

theorem ImportExisting_continues_past_failed_inserts_witness:
  "fst (ImportExisting (\<lambda>r. r) ''/m'' []
     [\<lparr>v_names = [[CHR ''b'', CHR 0xC3, CHR 0xA9, CHR '' '', CHR ''c''], ''x.GGUF''],
       v_isDir = False, v_size = 3145728, v_err = False, v_insert_ok = True, v_now = 7\<rparr>,
      \<lparr>v_names = [''C'', ''d.gguf''], v_isDir = False, v_size = 10, v_err = False,
       v_insert_ok = False, v_now = 8\<rparr>]) = None \<and>
   import_slug (\<lambda>r. r)
     \<lparr>v_names = [[CHR ''b'', CHR 0xC3, CHR 0xA9, CHR '' '', CHR ''c''], ''x.GGUF''],
       v_isDir = False, v_size = 3145728, v_err = False, v_insert_ok = True, v_now = 7\<rparr> =
     ''b--c'' \<and>
   list_ex
     (is_record_of (\<lambda>r. r) ''/m''
        \<lparr>v_names = [[CHR ''b'', CHR 0xC3, CHR 0xA9, CHR '' '', CHR ''c''], ''x.GGUF''],
          v_isDir = False, v_size = 3145728, v_err = False, v_insert_ok = True, v_now = 7\<rparr>)
     (fst (snd (ImportExisting (\<lambda>r. r) ''/m'' []
       ([] @
        \<lparr>v_names = [[CHR ''b'', CHR 0xC3, CHR 0xA9, CHR '' '', CHR ''c''], ''x.GGUF''],
          v_isDir = False, v_size = 3145728, v_err = False, v_insert_ok = True, v_now = 7\<rparr> #
        [\<lparr>v_names = [''C'', ''d.gguf''], v_isDir = False, v_size = 10, v_err = False,
          v_insert_ok = False, v_now = 8\<rparr>])))) \<and>
   WarnImportFailed ''/m/C/d.gguf'' (Wrap ''inserting model'' DriverError) \<in>
     set (snd (snd (ImportExisting (\<lambda>r. r) ''/m'' []
       [\<lparr>v_names = [[CHR ''b'', CHR 0xC3, CHR 0xA9, CHR '' '', CHR ''c''], ''x.GGUF''],
         v_isDir = False, v_size = 3145728, v_err = False, v_insert_ok = True, v_now = 7\<rparr>,
        \<lparr>v_names = [''C'', ''d.gguf''], v_isDir = False, v_size = 10, v_err = False,
         v_insert_ok = False, v_now = 8\<rparr>]))) \<and>
   fst (ImportExisting (\<lambda>r. r) ''/m'' []
     ([\<lparr>v_names = [[CHR ''b'', CHR 0xC3, CHR 0xA9, CHR '' '', CHR ''c''], ''x.GGUF''],
        v_isDir = False, v_size = 3145728, v_err = False, v_insert_ok = True, v_now = 7\<rparr>] @
      \<lparr>v_names = [''B''], v_isDir = True, v_size = 0, v_err = True,
        v_insert_ok = True, v_now = 8\<rparr> #
      [\<lparr>v_names = [''C'', ''d.gguf''], v_isDir = False, v_size = 10, v_err = False,
        v_insert_ok = True, v_now = 9\<rparr>])) =
     Some (Wrap ''walking models directory'' OSError)"
proof -
  let ?a = "\<lparr>v_names = [[CHR ''b'', CHR 0xC3, CHR 0xA9, CHR '' '', CHR ''c''], ''x.GGUF''],
       v_isDir = False, v_size = 3145728, v_err = False, v_insert_ok = True, v_now = 7\<rparr>"
  let ?c = "\<lparr>v_names = [''C'', ''d.gguf''], v_isDir = False, v_size = 10, v_err = False,
       v_insert_ok = False, v_now = 8\<rparr>"
  let ?bad = "\<lparr>v_names = [''B''], v_isDir = True, v_size = 0, v_err = True,
        v_insert_ok = True, v_now = 8\<rparr>"
  let ?post = "[\<lparr>v_names = [''C'', ''d.gguf''], v_isDir = False, v_size = 10, v_err = False,
        v_insert_ok = True, v_now = 9\<rparr>]"
  have fine: "list_all (\<lambda>v. \<not> v_err v) [?a, ?c]" "list_all (\<lambda>v. \<not> v_err v) [?a]" "v_err ?bad"
    "list_all (\<lambda>w. \<not> v_err w) ([] @ ?a # [?c])" "v_insert_ok ?a"
    by simp_all
  have ga: "is_model_file ''/m'' ?a"
    by (simp add: path_eval)
  have gc: "is_model_file ''/m'' ?c"
    by (simp add: path_eval)
  have sa: "import_slug (\<lambda>r. r) ?a = ''b--c''"
    by (simp add: slug_eval)
  have later: "list_all (\<lambda>w. \<not> (is_model_file ''/m'' w \<and> v_insert_ok w \<and>
                      import_slug (\<lambda>r. r) w = import_slug (\<lambda>r. r) ?a)) [?c]"
    by simp
  have pc: "v_path ''/m'' ?c = ''/m/C/d.gguf''"
    by (simp add: path_eval)
  note main = ImportExisting_continues_past_failed_inserts
    [of "[?a, ?c]" "\<lambda>r. r" "''/m''" "[]" "[]" ?a "[?c]" "[?a]" ?bad ?post]
  from main fine have complete: "fst (ImportExisting (\<lambda>r. r) ''/m'' [] [?a, ?c]) = None"
    by blast
  from main fine(4,5) ga later
  have ra: "list_ex (is_record_of (\<lambda>r. r) ''/m'' ?a)
              (fst (snd (ImportExisting (\<lambda>r. r) ''/m'' [] ([] @ ?a # [?c]))))"
    by blast
  from main fine gc have "if v_insert_ok ?c
          then list_ex (\<lambda>m. Slug m = import_slug (\<lambda>r. r) ?c)
                 (fst (snd (ImportExisting (\<lambda>r. r) ''/m'' [] [?a, ?c])))
          else WarnImportFailed (v_path ''/m'' ?c) (Wrap ''inserting model'' DriverError)
                 \<in> set (snd (snd (ImportExisting (\<lambda>r. r) ''/m'' [] [?a, ?c])))"
    by (meson list.set_intros)
  then have rc: "WarnImportFailed ''/m/C/d.gguf'' (Wrap ''inserting model'' DriverError)
                 \<in> set (snd (snd (ImportExisting (\<lambda>r. r) ''/m'' [] [?a, ?c])))"
    unfolding pc by simp
  from main fine have "fst (ImportExisting (\<lambda>r. r) ''/m'' [] ([?a] @ ?bad # ?post)) =
        Some (Wrap ''walking models directory'' OSError)"
    by blast
  with complete sa ra rc show ?thesis by blast
qed

text \<open>
  C6, as the claim has it: a record for every file whose name matches \<open>*.gguf\<close>, and an
  error visiting one path never aborts the walk over the remaining files. Neither
  holds. A model file directly in the root is skipped: the walk over the root and
  \<open>top.gguf\<close> leaves the store empty. And the function given to Walk returns the error
  it is handed, so Walk stops: when Walk cannot read the directory \<open>B\<close>, the model file
  \<open>C/d.gguf\<close> that comes after it is not imported; it is when Walk reports no error.
\<close>

theorem ImportExisting_aborts_on_visit_error:
  "ImportExisting (\<lambda>r. r) ''/m'' []
     [\<lparr>v_names = [], v_isDir = True, v_size = 0, v_err = False,
       v_insert_ok = True, v_now = 8\<rparr>,
      \<lparr>v_names = [''top.gguf''], v_isDir = False, v_size = 10, v_err = False,
       v_insert_ok = True, v_now = 8\<rparr>] =
     (None, [], [InfoScanning ''/m'', InfoImportCompleted]) \<and>
   ImportExisting (\<lambda>r. r) ''/m'' []
     [\<lparr>v_names = [], v_isDir = True, v_size = 0, v_err = False,
       v_insert_ok = True, v_now = 8\<rparr>,
      \<lparr>v_names = [''B''], v_isDir = True, v_size = 0, v_err = True,
       v_insert_ok = True, v_now = 8\<rparr>,
      \<lparr>v_names = [''C''], v_isDir = True, v_size = 0, v_err = False,
       v_insert_ok = True, v_now = 9\<rparr>,
      \<lparr>v_names = [''C'', ''d.gguf''], v_isDir = False, v_size = 10, v_err = False,
       v_insert_ok = True, v_now = 9\<rparr>] =
     (Some (Wrap ''walking models directory'' OSError), [], [InfoScanning ''/m'']) \<and>
   ImportExisting (\<lambda>r. r) ''/m'' []
     [\<lparr>v_names = [], v_isDir = True, v_size = 0, v_err = False,
       v_insert_ok = True, v_now = 8\<rparr>,
      \<lparr>v_names = [''B''], v_isDir = True, v_size = 0, v_err = False,
       v_insert_ok = True, v_now = 8\<rparr>,
      \<lparr>v_names = [''C''], v_isDir = True, v_size = 0, v_err = False,
       v_insert_ok = True, v_now = 9\<rparr>,
      \<lparr>v_names = [''C'', ''d.gguf''], v_isDir = False, v_size = 10, v_err = False,
       v_insert_ok = True, v_now = 9\<rparr>] =
     (None,
      [\<lparr>ID = 1, Slug = ''c'', ModelID = ''C'', FileName = ''d.gguf'', FilePath = ''/m/C/d.gguf'',
        FileSize = ''0M'', CreatedAt = 9, LastUsed = None\<rparr>],
      [InfoScanning ''/m'', InfoImported ''c'', InfoImportCompleted])"
  by (simp add: ImportExisting_def walkFn_def path_eval slug_eval AddModel_def new_rowid_def
        Base_def)

section \<open>The validation of Pull\<close>

lemma Pull_download_proceeds:
  "fst (Pull_download env s modelID modelDir file fx) \<noteq> Some (InvalidModelID x) \<and>
   (\<exists>more. fst (snd (Pull_download env s modelID modelDir file fx)) = fx @ more)"
  by (auto simp: Pull_download_def Let_def simp del: itoa.simps split: option.splits prod.splits)

lemma Pull_fetch_proceeds:
  "fst (Pull_fetch env s modelID modelDir fx) \<noteq> Some (InvalidModelID x) \<and>
   (\<exists>more. fst (snd (Pull_fetch env s modelID modelDir fx)) = fx @ more)"
proof -
  have "fst (Pull_download env s modelID modelDir f (fx @ [e])) \<noteq> Some (InvalidModelID x) \<and>
        (\<exists>more. fst (snd (Pull_download env s modelID modelDir f (fx @ [e]))) = fx @ more)"
    for f e
    using Pull_download_proceeds [of env s modelID modelDir f "fx @ [e]" x] by auto
  then show ?thesis
    by (auto simp: Pull_fetch_def Let_def split: option.splits http_result.splits)
qed

text \<open>
  C2, as the source has it. \<open>Pull\<close> goes on after the validation exactly for the
  identifiers \<open>namespace/name\<close> with a non-empty namespace of characters of
  \<open>[a-zA-Z0-9_-]\<close> (no dot) and a non-empty name of characters of \<open>[a-zA-Z0-9_.-]\<close>.
  Every other string is rejected with the error "invalid model ID format", with no
  effect on the network, the disk or the store; for an accepted one the error is
  another, if any, and the first effect is the \<open>os.Stat\<close> of the model's directory.
\<close>

theorem Pull_validation_gate:
  "(validateModelID modelID \<longleftrightarrow>
      (\<exists>ns nm. modelID = ns @ CHR ''/'' # nm \<and> ns \<noteq> [] \<and> list_all cls_namespace ns \<and>
         nm \<noteq> [] \<and> list_all cls_name nm)) \<and>
   (\<not> validateModelID modelID \<longrightarrow>
      Pull modelsDir env s modelID = (Some (InvalidModelID modelID), [], s)) \<and>
   (validateModelID modelID \<longrightarrow>
      fst (Pull modelsDir env s modelID) \<noteq> Some (InvalidModelID modelID) \<and>
      (\<exists>fx. fst (snd (Pull modelsDir env s modelID)) =
              Stat (filepath_Join [modelsDir, modelID]) # fx))"
proof -
  have rejected: "Pull modelsDir env s modelID = (Some (InvalidModelID modelID), [], s)"
    if "\<not> validateModelID modelID"
    using that by (simp add: Pull_def)
  have accepted: "fst (Pull modelsDir env s modelID) \<noteq> Some (InvalidModelID modelID) \<and>
      (\<exists>fx. fst (snd (Pull modelsDir env s modelID)) =
              Stat (filepath_Join [modelsDir, modelID]) # fx)"
    if "validateModelID modelID"
    using that
      Pull_fetch_proceeds [of env s modelID "filepath_Join [modelsDir, modelID]"
        "[Stat (filepath_Join [modelsDir, modelID])]" modelID]
      Pull_fetch_proceeds [of env s modelID "filepath_Join [modelsDir, modelID]"
        "[Stat (filepath_Join [modelsDir, modelID]),
          Glob (filepath_Join [filepath_Join [modelsDir, modelID], ''*.gguf''])]" modelID]
    by (auto simp: Pull_def Let_def split: option.splits)
  from rejected accepted validateModelID_iff [of modelID] show ?thesis by blast
qed

theorem Pull_validation_gate_witness:
  "validateModelID ''TheBloke/phi-2-GGUF'' \<and>
   fst (Pull ''/m''
          \<lparr>pe_dir_exists = False, pe_glob = None, pe_http = HttpFailed,
            pe_siblings = (\<lambda>b. None), pe_mkdir_ok = True, pe_download_ok = True,
            pe_downloaded_exists = True, pe_downloaded_size = None, pe_insert_ok = True,
            pe_now = 0\<rparr> [] ''TheBloke/phi-2-GGUF'') \<noteq>
     Some (InvalidModelID ''TheBloke/phi-2-GGUF'') \<and>
   Pull ''/m''
     \<lparr>pe_dir_exists = False, pe_glob = None, pe_http = HttpFailed,
       pe_siblings = (\<lambda>b. None), pe_mkdir_ok = True, pe_download_ok = True,
       pe_downloaded_exists = True, pe_downloaded_size = None, pe_insert_ok = True,
       pe_now = 0\<rparr> [] ''phi 2'' =
     (Some (InvalidModelID ''phi 2''), [], [])"
proof -
  let ?env = "\<lparr>pe_dir_exists = False, pe_glob = None, pe_http = HttpFailed,
            pe_siblings = (\<lambda>b. None), pe_mkdir_ok = True, pe_download_ok = True,
            pe_downloaded_exists = True, pe_downloaded_size = None, pe_insert_ok = True,
            pe_now = 0\<rparr>"
  have good: "validateModelID ''TheBloke/phi-2-GGUF''" by code_simp
  have bad: "\<not> validateModelID ''phi 2''" by code_simp
  from Pull_validation_gate [of "''TheBloke/phi-2-GGUF''" "''/m''" ?env "[]"] good
  have a: "fst (Pull ''/m'' ?env [] ''TheBloke/phi-2-GGUF'') \<noteq>
             Some (InvalidModelID ''TheBloke/phi-2-GGUF'')"
    by blast
  from Pull_validation_gate [of "''phi 2''" "''/m''" ?env "[]"] bad
  have b: "Pull ''/m'' ?env [] ''phi 2'' = (Some (InvalidModelID ''phi 2''), [], [])"
    by blast
  from good a b show ?thesis by blast
qed

text \<open>
  C2, as the claim has it: \<open>Pull\<close> goes on for every \<open>namespace/name\<close> whose two
  segments consist of alphanumeric characters, hyphens, underscores and dots. It does
  not when the namespace has a dot: the class of the pattern for the namespace has
  none.
\<close>

theorem Pull_rejects_dotted_namespace:
  "spec_source_id ''my.org/model'' \<and>
   Pull ''/m''
     \<lparr>pe_dir_exists = False, pe_glob = None, pe_http = HttpFailed,
       pe_siblings = (\<lambda>b. None), pe_mkdir_ok = True, pe_download_ok = True,
       pe_downloaded_exists = True, pe_downloaded_size = None, pe_insert_ok = True,
       pe_now = 0\<rparr> [] ''my.org/model'' =
     (Some (InvalidModelID ''my.org/model''), [], [])"
proof -
  have "spec_source_id ''my.org/model''"
    by (simp add: spec_source_id_def cls_name_def in_range_def)
  moreover have "\<not> validateModelID ''my.org/model''" by code_simp
  ultimately show ?thesis by (simp add: Pull_def)
qed

section \<open>The stream of a chat turn\<close>

lemma streamLine_skips:
  "\<not> HasPrefix line ''data: '' \<or> um (TrimPrefix line ''data: '') = None \<Longrightarrow>
   streamLine um acc line = acc"
  by (auto simp: streamLine_def Let_def)

lemma streamLine_content:
  "um d = Some m \<Longrightarrow> m ''content'' = Some (IString c) \<Longrightarrow>
   streamLine um acc (''data: '' @ d) = (fst acc @ c, snd acc @ c)"
  by (simp add: streamLine_def HasPrefix_def TrimPrefix_def)

lemma stream_fragments:
  "list_all (\<lambda>(d, c). \<exists>m. um d = Some m \<and> m ''content'' = Some (IString c)) frags \<Longrightarrow>
   foldl (streamLine um) acc (map (\<lambda>(d, c). ''data: '' @ d) frags) =
     (fst acc @ concat (map snd frags), snd acc @ concat (map snd frags))"
proof (induction frags arbitrary: acc)
  case Nil
  show ?case by simp
next
  case (Cons f frags)
  obtain d c where f: "f = (d, c)" by (cases f)
  with Cons.prems obtain m where "um d = Some m" "m ''content'' = Some (IString c)"
    by auto
  then have "streamLine um acc (''data: '' @ d) = (fst acc @ c, snd acc @ c)"
    by (rule streamLine_content)
  moreover from Cons.prems
  have "list_all (\<lambda>(d, c). \<exists>m. um d = Some m \<and> m ''content'' = Some (IString c)) frags"
    by simp
  ultimately show ?case
    using Cons.IH [of "(fst acc @ c, snd acc @ c)"] by (simp add: f)
qed

text \<open>
  C7. In one chat turn whose reply streams the lines \<open>data: {"content":"Hi"}\<close>,
  \<open>data: {"content":" there"}\<close> and a third line that does not begin with \<open>data: \<close> or
  whose fragment the decoder rejects, the text printed for the assistant is
  \<open>Hi there\<close>, and the history grows by the user's line and by exactly one assistant
  turn, \<open>Hi there\<close>. Such a line is skipped wherever it stands in the stream: the turn
  is what it is without the line, so the lines after it are still read. And whatever
  the fragments are: when every line carries a fragment whose \<open>content\<close> is a string,
  the text printed and the one assistant turn added are these strings, one after the
  other in the order of the lines.
\<close>

theorem chatTurn_accumulates_and_skips:
  assumes "um ''{\"content\":\"Hi\"}'' = Some m1" and "m1 ''content'' = Some (IString ''Hi'')"
    and "um ''{\"content\":\" there\"}'' = Some m2" and "m2 ''content'' = Some (IString '' there'')"
    and "\<not> HasPrefix bad ''data: '' \<or> um (TrimPrefix bad ''data: '') = None"
    and "userInput \<noteq> ''exit''"
  shows "chatTurn um chatHistory userInput
           (Stream [''data: {\"content\":\"Hi\"}'', ''data: {\"content\":\" there\"}'', bad] False) =
           (Answered, chatHistory @ [userInput, ''Hi there''], ''Assistant: Hi there'' @ [CHR 0x0A]) \<and>
         (\<forall>before after.
            chatTurn um chatHistory userInput (Stream (before @ bad # after) False) =
            chatTurn um chatHistory userInput (Stream (before @ after) False)) \<and>
         (\<forall>frags.
            list_all (\<lambda>(d, c). \<exists>m. um d = Some m \<and> m ''content'' = Some (IString c)) frags \<longrightarrow>
            chatTurn um chatHistory userInput
              (Stream (map (\<lambda>(d, c). ''data: '' @ d) frags) False) =
              (Answered, chatHistory @ [userInput, concat (map snd frags)],
               ''Assistant: '' @ concat (map snd frags) @ [CHR 0x0A]))"
proof -
  have l1: "streamLine um acc ''data: {\"content\":\"Hi\"}'' = (fst acc @ ''Hi'', snd acc @ ''Hi'')" for acc
    using assms(1,2) streamLine_content [of um _ m1 "''Hi''" acc] by simp
  have l2: "streamLine um acc ''data: {\"content\":\" there\"}'' =
              (fst acc @ '' there'', snd acc @ '' there'')" for acc
    using assms(3,4) streamLine_content [of um _ m2 "'' there''" acc] by simp
  have l3: "streamLine um acc bad = acc" for acc
    using assms(5) by (rule streamLine_skips)
  have "chatTurn um chatHistory userInput
           (Stream [''data: {\"content\":\"Hi\"}'', ''data: {\"content\":\" there\"}'', bad] False) =
           (Answered, chatHistory @ [userInput, ''Hi there''], ''Assistant: Hi there'' @ [CHR 0x0A])"
    using assms(6) by (simp add: chatTurn_def l1 l2 l3)
  moreover have "chatTurn um chatHistory userInput (Stream (before @ bad # after) False) =
            chatTurn um chatHistory userInput (Stream (before @ after) False)" for before after
    by (simp add: chatTurn_def l3)
  moreover have "chatTurn um chatHistory userInput
              (Stream (map (\<lambda>(d, c). ''data: '' @ d) frags) False) =
              (Answered, chatHistory @ [userInput, concat (map snd frags)],
               ''Assistant: '' @ concat (map snd frags) @ [CHR 0x0A])"
    if "list_all (\<lambda>(d, c). \<exists>m. um d = Some m \<and> m ''content'' = Some (IString c)) frags" for frags
    using assms(6) stream_fragments [OF that, of "(''Assistant: '', [])"]
    by (simp add: chatTurn_def)
  ultimately show ?thesis by blast
qed

theorem chatTurn_accumulates_and_skips_witness:
  "chatTurn
     (map_of [(''{\"content\":\"Hi\"}'', map_of [(''content'', IString ''Hi'')]),
              (''{\"content\":\" there\"}'', map_of [(''content'', IString '' there'')]),
              (''{\"content\":\"!\"}'', map_of [(''content'', IString ''!'')]),
              (''{\"done\":true}'', map_of [(''done'', IOther)])])
     [''Hello'', ''Hello, human.''] ''Say hi''
     (Stream [''data: {\"content\":\"Hi\"}'', ''data: {\"content\":\" there\"}'',
              ''data: {\"content\":\" the''] False) =
   (Answered, [''Hello'', ''Hello, human.''] @ [''Say hi'', ''Hi there''],
    ''Assistant: Hi there'' @ [CHR 0x0A]) \<and>
   chatTurn
     (map_of [(''{\"content\":\"Hi\"}'', map_of [(''content'', IString ''Hi'')]),
              (''{\"content\":\" there\"}'', map_of [(''content'', IString '' there'')]),
              (''{\"content\":\"!\"}'', map_of [(''content'', IString ''!'')]),
              (''{\"done\":true}'', map_of [(''done'', IOther)])])
     [''Hello'', ''Hello, human.''] ''Say hi''
     (Stream (map (\<lambda>(d, c). ''data: '' @ d)
                [(''{\"content\":\"!\"}'', ''!''), (''{\"content\":\"Hi\"}'', ''Hi''),
                 (''{\"content\":\"!\"}'', ''!'')]) False) =
   (Answered,
    [''Hello'', ''Hello, human.''] @
    [''Say hi'', concat (map snd [(''{\"content\":\"!\"}'', ''!''), (''{\"content\":\"Hi\"}'', ''Hi''),
                 (''{\"content\":\"!\"}'', ''!'')])],
    ''Assistant: '' @ concat (map snd [(''{\"content\":\"!\"}'', ''!''), (''{\"content\":\"Hi\"}'', ''Hi''),
                 (''{\"content\":\"!\"}'', ''!'')]) @ [CHR 0x0A]) \<and>
   concat (map snd [(''{\"content\":\"!\"}'', ''!''), (''{\"content\":\"Hi\"}'', ''Hi''),
                 (''{\"content\":\"!\"}'', ''!'')]) = ''!Hi!''"
proof -
  let ?um = "map_of [(''{\"content\":\"Hi\"}'', map_of [(''content'', IString ''Hi'')]),
              (''{\"content\":\" there\"}'', map_of [(''content'', IString '' there'')]),
              (''{\"content\":\"!\"}'', map_of [(''content'', IString ''!'')]),
              (''{\"done\":true}'', map_of [(''done'', IOther)])]"
  let ?frags = "[(''{\"content\":\"!\"}'', ''!''), (''{\"content\":\"Hi\"}'', ''Hi''),
                 (''{\"content\":\"!\"}'', ''!'')]"
  have a: "?um ''{\"content\":\"Hi\"}'' = Some (map_of [(''content'', IString ''Hi'')])" by simp
  have b: "map_of [(''content'', IString ''Hi'')] ''content'' = Some (IString ''Hi'')" by simp
  have c: "?um ''{\"content\":\" there\"}'' = Some (map_of [(''content'', IString '' there'')])" by simp
  have d: "map_of [(''content'', IString '' there'')] ''content'' = Some (IString '' there'')" by simp
  have e: "\<not> HasPrefix ''data: {\"content\":\" the'' ''data: '' \<or>
           ?um (TrimPrefix ''data: {\"content\":\" the'' ''data: '') = None"
    by (simp add: HasPrefix_def TrimPrefix_def)
  have f: "''Say hi'' \<noteq> ''exit''" by simp
  have g: "list_all (\<lambda>(d, c). \<exists>m. ?um d = Some m \<and> m ''content'' = Some (IString c)) ?frags"
    by simp
  note main = chatTurn_accumulates_and_skips
    [of ?um "map_of [(''content'', IString ''Hi'')]" "map_of [(''content'', IString '' there'')]"
        "''data: {\"content\":\" the''" "''Say hi''" "[''Hello'', ''Hello, human.'']"]
  note all = main [OF a b c d e f]
  from all have first: "chatTurn ?um [''Hello'', ''Hello, human.''] ''Say hi''
     (Stream [''data: {\"content\":\"Hi\"}'', ''data: {\"content\":\" there\"}'',
              ''data: {\"content\":\" the''] False) =
   (Answered, [''Hello'', ''Hello, human.''] @ [''Say hi'', ''Hi there''],
    ''Assistant: Hi there'' @ [CHR 0x0A])"
    by (rule conjunct1)
  note second = all [THEN conjunct2, THEN conjunct2, rule_format, OF g]
  have third: "concat (map snd ?frags) = ''!Hi!''" by simp
  from first second third show ?thesis by (intro conjI)
qed

section \<open>Waiting for the server\<close>

lemma WaitLoop_ready:
  assumes "health k" "int k < maxWait"
  shows "i \<le> k \<Longrightarrow> (\<forall>j. i \<le> j \<and> j < k \<longrightarrow> \<not> health j) \<Longrightarrow>
         WaitLoop health maxWait i =
           (None, concat (map unanswered [i..<k]) @ progress_dot k @ [Check, Ready k])"
proof (induction "k - i" arbitrary: i)
  case 0
  then have "i = k" by simp
  with assms show ?case
    by (simp add: WaitLoop.simps [of health maxWait k] progress_dot_def del: WaitLoop.simps)
next
  case (Suc d)
  then have lt: "i < k" and nh: "\<not> health i" by auto
  from lt Suc.prems have "Suc i \<le> k" "\<forall>j. Suc i \<le> j \<and> j < k \<longrightarrow> \<not> health j"
    by simp_all
  moreover from Suc.hyps(2) have "d = k - Suc i" by simp
  ultimately have "WaitLoop health maxWait (Suc i) =
           (None, concat (map unanswered [Suc i..<k]) @ progress_dot k @ [Check, Ready k])"
    by (rule Suc.hyps(1) [rotated])
  moreover from lt assms have "int i < maxWait" by simp
  ultimately show ?case
    using nh lt
    by (simp add: WaitLoop.simps [of health maxWait i] upt_conv_Cons unanswered_def progress_dot_def
          del: WaitLoop.simps)
qed

lemma WaitLoop_timeout:
  "(\<forall>j. i \<le> j \<and> int j < maxWait \<longrightarrow> \<not> health j) \<Longrightarrow>
   WaitLoop health maxWait i =
     (Some (StartTimeout maxWait), concat (map unanswered [i..<nat maxWait]))"
proof (induction "nat maxWait - i" arbitrary: i)
  case 0
  then have "\<not> int i < maxWait" by simp
  moreover from 0 have "[i..<nat maxWait] = []" by simp
  ultimately show ?case
    by (simp add: WaitLoop.simps [of health maxWait i] del: WaitLoop.simps)
next
  case (Suc d)
  then have lt: "int i < maxWait" by simp
  with Suc have nh: "\<not> health i" by simp
  from Suc.prems have "\<forall>j. Suc i \<le> j \<and> int j < maxWait \<longrightarrow> \<not> health j"
    by simp
  moreover from Suc.hyps(2) have "d = nat maxWait - Suc i" by simp
  ultimately have "WaitLoop health maxWait (Suc i) =
     (Some (StartTimeout maxWait), concat (map unanswered [Suc i..<nat maxWait]))"
    by (rule Suc.hyps(1) [rotated])
  moreover from lt have "i < nat maxWait" by simp
  ultimately show ?case
    using nh lt
    by (simp add: WaitLoop.simps [of health maxWait i] upt_conv_Cons unanswered_def progress_dot_def
          del: WaitLoop.simps)
qed

lemma pred_div_10:
  "(n::nat) div 10 = (n - 1) div 10 + (if 0 < n \<and> n mod 10 = 0 then 1 else 0)"
proof -
  define q r where "q = n div 10" and "r = n mod 10"
  have n: "n = 10 * q + r" and r: "r < 10" by (simp_all add: q_def r_def)
  show ?thesis
  proof (cases "r = 0")
    case True
    show ?thesis
    proof (cases q)
      case 0
      with True n show ?thesis by simp
    next
      case (Suc p)
      with True n have "n - 1 = 10 * p + 9" by simp
      then have "(n - 1) div 10 = p" by simp
      moreover from Suc True n have "n div 10 = Suc p" "n mod 10 = 0" "0 < n" by simp_all
      ultimately show ?thesis by simp
    qed
  next
    case False
    then obtain t where t: "r = Suc t" by (cases r) auto
    with n r have "n - 1 = 10 * q + t" "t < 10" by simp_all
    then have "(n - 1) div 10 = q" by simp
    moreover from n r False have "n div 10 = q" "n mod 10 \<noteq> 0" by simp_all
    ultimately show ?thesis by simp
  qed
qed

lemma count_event_append: "count_event e (xs @ ys) = count_event e xs + count_event e ys"
  by (simp add: count_event_def)

lemma count_event_unanswered:
  "count_event Check (unanswered i) = 1"
  "count_event SleepSecond (unanswered i) = 1"
  "count_event Dot (unanswered i) = (if 0 < i \<and> i mod 10 = 0 then 1 else 0)"
  by (simp_all add: count_event_def unanswered_def progress_dot_def)

lemma count_rounds:
  "count_event e (concat (map unanswered [0..<Suc n])) =
   count_event e (concat (map unanswered [0..<n])) + count_event e (unanswered n)"
  by (simp add: count_event_append)

lemma count_unanswered:
  "count_event Check (concat (map unanswered [0..<n])) = n"
  "count_event SleepSecond (concat (map unanswered [0..<n])) = n"
  "count_event Dot (concat (map unanswered [0..<n])) = (n - 1) div 10"
proof (induction n)
  case 0
  show "count_event Check (concat (map unanswered [0..<0])) = 0"
    "count_event SleepSecond (concat (map unanswered [0..<0])) = 0"
    "count_event Dot (concat (map unanswered [0..<0])) = (0 - 1) div 10"
    by (simp_all add: count_event_def)
next
  case (Suc n)
  show "count_event Check (concat (map unanswered [0..<Suc n])) = Suc n"
    unfolding count_rounds Suc count_event_unanswered by simp
  show "count_event SleepSecond (concat (map unanswered [0..<Suc n])) = Suc n"
    unfolding count_rounds Suc count_event_unanswered by simp
  show "count_event Dot (concat (map unanswered [0..<Suc n])) = (Suc n - 1) div 10"
    unfolding count_rounds Suc count_event_unanswered using pred_div_10 [of n] by simp
qed

lemma count_ready:
  "count_event Check (concat (map unanswered [0..<k]) @ progress_dot k @ [Check, Ready k]) = Suc k"
  "count_event SleepSecond (concat (map unanswered [0..<k]) @ progress_dot k @ [Check, Ready k]) = k"
  "count_event Dot (concat (map unanswered [0..<k]) @ progress_dot k @ [Check, Ready k]) = k div 10"
proof -
  have tail: "count_event Check (progress_dot k @ [Check, Ready k]) = 1"
    "count_event SleepSecond (progress_dot k @ [Check, Ready k]) = 0"
    "count_event Dot (progress_dot k @ [Check, Ready k]) = (if 0 < k \<and> k mod 10 = 0 then 1 else 0)"
    by (simp_all add: count_event_def progress_dot_def)
  show "count_event Check (concat (map unanswered [0..<k]) @ progress_dot k @ [Check, Ready k]) = Suc k"
    unfolding count_event_append [of _ "concat (map unanswered [0..<k])"] count_unanswered tail by simp
  show "count_event SleepSecond (concat (map unanswered [0..<k]) @ progress_dot k @ [Check, Ready k]) = k"
    unfolding count_event_append [of _ "concat (map unanswered [0..<k])"] count_unanswered tail by simp
  show "count_event Dot (concat (map unanswered [0..<k]) @ progress_dot k @ [Check, Ready k]) = k div 10"
    unfolding count_event_append [of _ "concat (map unanswered [0..<k])"] count_unanswered tail
    using pred_div_10 [of k] by simp
qed

text \<open>
  C8. \<open>WaitForServer port 300\<close> checks the health endpoint and, while the answer is
  no, sleeps one second and checks again. When the fifth check is the first that finds
  the server healthy, it returns success at that check: five checks, four sleeps
  between them. When none of 300 checks finds it healthy, it returns the timeout error
  after 300 checks and 300 sleeps. A dot is printed at the beginning of a round when the
  number of the checks that went unanswered is a positive multiple of ten: \<open>k div 10\<close>
  dots when \<open>k\<close> checks went unanswered before the healthy one, 29 in the 300 rounds
  of a timeout.
\<close>

theorem WaitForServer_polls_once_a_second:
  "(health 4 \<and> (\<forall>j<4. \<not> health j) \<longrightarrow>
      WaitForServer health 300 =
        (None, [Check, SleepSecond, Check, SleepSecond, Check, SleepSecond, Check, SleepSecond,
                Check, Ready 4])) \<and>
   ((\<forall>j<300. \<not> health j) \<longrightarrow>
      WaitForServer health 300 =
        (Some (StartTimeout 300), concat (map unanswered [0..<300])) \<and>
      count_event Check (snd (WaitForServer health 300)) = 300 \<and>
      count_event SleepSecond (snd (WaitForServer health 300)) = 300 \<and>
      count_event Dot (snd (WaitForServer health 300)) = 29) \<and>
   (health k \<and> (\<forall>j<k. \<not> health j) \<and> k < 300 \<longrightarrow>
      WaitForServer health 300 =
        (None, concat (map unanswered [0..<k]) @ progress_dot k @ [Check, Ready k]) \<and>
      count_event Check (snd (WaitForServer health 300)) = Suc k \<and>
      count_event SleepSecond (snd (WaitForServer health 300)) = k \<and>
      count_event Dot (snd (WaitForServer health 300)) = k div 10)"
proof -
  have ready: "WaitForServer health 300 =
        (None, concat (map unanswered [0..<k]) @ progress_dot k @ [Check, Ready k])"
    if "health k" "\<forall>j<k. \<not> health j" "k < 300" for k
    unfolding WaitForServer_def using that by (intro WaitLoop_ready) (simp_all del: WaitLoop.simps)
  have fifth: "concat (map unanswered [0..<4]) @ progress_dot 4 @ [Check, Ready 4] =
      [Check, SleepSecond, Check, SleepSecond, Check, SleepSecond, Check, SleepSecond,
       Check, Ready 4]"
    by (simp add: upt_conv_Cons unanswered_def progress_dot_def)
  have timeout: "WaitForServer health 300 =
        (Some (StartTimeout 300), concat (map unanswered [0..<300]))"
    if "\<forall>j<300. \<not> health j"
    unfolding WaitForServer_def using that WaitLoop_timeout [of 0 300 health]
    by (simp del: WaitLoop.simps)
  have a: "WaitForServer health 300 =
        (None, [Check, SleepSecond, Check, SleepSecond, Check, SleepSecond, Check, SleepSecond,
                Check, Ready 4])"
    if "health 4" "\<forall>j<4. \<not> health j"
    using ready [OF that] fifth by simp
  have b: "count_event Check (snd (WaitForServer health 300)) = 300 \<and>
      count_event SleepSecond (snd (WaitForServer health 300)) = 300 \<and>
      count_event Dot (snd (WaitForServer health 300)) = 29"
    if "\<forall>j<300. \<not> health j"
    unfolding timeout [OF that] snd_conv count_unanswered by simp
  have c: "count_event Check (snd (WaitForServer health 300)) = Suc k \<and>
      count_event SleepSecond (snd (WaitForServer health 300)) = k \<and>
      count_event Dot (snd (WaitForServer health 300)) = k div 10"
    if "health k" "\<forall>j<k. \<not> health j" "k < 300"
    unfolding ready [OF that] snd_conv count_ready by simp
  from a b c ready [of k] timeout show ?thesis by blast
qed

theorem WaitForServer_polls_once_a_second_witness:
  "WaitForServer (\<lambda>i. i = 4) 300 =
     (None, [Check, SleepSecond, Check, SleepSecond, Check, SleepSecond, Check, SleepSecond,
             Check, Ready 4]) \<and>
   fst (WaitForServer (\<lambda>i. False) 300) = Some (StartTimeout 300) \<and>
   count_event Check (snd (WaitForServer (\<lambda>i. False) 300)) = 300 \<and>
   count_event Dot (snd (WaitForServer (\<lambda>i. False) 300)) = 29 \<and>
   count_event Dot (snd (WaitForServer (\<lambda>i. i = 25) 300)) = 2"
proof -
  note fifth = WaitForServer_polls_once_a_second [of "\<lambda>i. i = 4" 4]
  note never = WaitForServer_polls_once_a_second [of "\<lambda>i. False" 0]
  note later = WaitForServer_polls_once_a_second [of "\<lambda>i. i = 25" 25]
  have w1: "WaitForServer (\<lambda>i. i = 4) 300 =
     (None, [Check, SleepSecond, Check, SleepSecond, Check, SleepSecond, Check, SleepSecond,
             Check, Ready 4])"
    using fifth by simp
  have n: "WaitForServer (\<lambda>i. False) 300 =
        (Some (StartTimeout 300), concat (map unanswered [0..<300])) \<and>
      count_event Check (snd (WaitForServer (\<lambda>i. False) 300)) = 300 \<and>
      count_event SleepSecond (snd (WaitForServer (\<lambda>i. False) 300)) = 300 \<and>
      count_event Dot (snd (WaitForServer (\<lambda>i. False) 300)) = 29"
    using never by blast
  then have w2: "fst (WaitForServer (\<lambda>i. False) 300) = Some (StartTimeout 300)"
    by simp
  have "(25::nat) = 25 \<and> (\<forall>j<25. j \<noteq> (25::nat)) \<and> (25::nat) < 300"
    by simp
  with later have "count_event Dot (snd (WaitForServer (\<lambda>i. i = 25) 300)) = 25 div 10"
    by blast
  then have w3: "count_event Dot (snd (WaitForServer (\<lambda>i. i = 25) 300)) = 2"
    by simp
  from w1 w2 n w3 show ?thesis by blast
qed

section \<open>Killing all servers\<close>

lemma actions_terminate_each:
  "filter is_action (terminate_each env fs) =
   map (\<lambda>pid. Signal pid SIGTERM) (filter (\<lambda>pid. find_ok env pid SIGTERM) (List.map_filter Atoi fs))"
  by (induction fs) (auto simp: is_action_def map_filter_simps split: option.splits)

lemma actions_force_kill_each:
  "filter is_action (force_kill_each env fs) =
   map (\<lambda>pid. Signal pid SIGKILL) (filter (\<lambda>pid. find_ok env pid SIGKILL) (List.map_filter Atoi fs))"
  by (induction fs) (auto simp: is_action_def map_filter_simps split: option.splits)

lemma terminate_each_reports:
  "pid \<in> set (filter (\<lambda>pid. find_ok env pid SIGTERM) (List.map_filter Atoi fs)) \<Longrightarrow>
   \<not> signal_ok env pid SIGTERM \<Longrightarrow> ErrorTerminate pid \<in> set (terminate_each env fs)"
  by (induction fs) (auto simp: map_filter_simps split: option.splits if_splits)

lemma force_kill_each_reports:
  "pid \<in> set (filter (\<lambda>pid. find_ok env pid SIGKILL) (List.map_filter Atoi fs)) \<Longrightarrow>
   \<not> signal_ok env pid SIGKILL \<Longrightarrow> ErrorForceKill pid \<in> set (force_kill_each env fs)"
  by (induction fs) (auto simp: map_filter_simps split: option.splits if_splits)

lemma KillAll_found:
  assumes "first_scan env = Found output" "Fields output \<noteq> []"
  shows "KillAll env =
    (None,
     [Pgrep, InfoKilling] @ terminate_each env (Fields output) @ [Sleep 2, Pgrep] @
     (if rescanned env \<noteq> [] then WarnForceKilling # force_kill_each env (Fields (rescanned env))
      else []) @
     [InfoAllTerminated])"
  using assms by (cases "second_scan env") (simp_all add: KillAll_def rescanned_def)

text \<open>
  C9. When the first scan finds processes, \<open>KillAll\<close> sends \<open>SIGTERM\<close> to each of them,
  sleeps two seconds, scans again, and sends \<open>SIGKILL\<close> to the processes of the second
  scan and to no other; so a process of both scans is sent \<open>SIGTERM\<close>, then, after the
  sleep and the second scan, \<open>SIGKILL\<close>. A signal that cannot be sent is reported, and
  \<open>KillAll\<close> returns no error whichever signals fail.
\<close>

theorem KillAll_terminates_then_kills:
  assumes "first_scan env = Found output" and "Fields output \<noteq> []"
  shows "fst (KillAll env) = None \<and>
         filter is_action (snd (KillAll env)) =
           Pgrep # map (\<lambda>pid. Signal pid SIGTERM) (signalled env SIGTERM output) @
           [Sleep 2, Pgrep] @
           map (\<lambda>pid. Signal pid SIGKILL) (signalled env SIGKILL (rescanned env)) \<and>
         (\<forall>pid \<in> set (signalled env SIGTERM output).
            \<not> signal_ok env pid SIGTERM \<longrightarrow> ErrorTerminate pid \<in> set (snd (KillAll env))) \<and>
         (\<forall>pid \<in> set (signalled env SIGKILL (rescanned env)).
            \<not> signal_ok env pid SIGKILL \<longrightarrow> ErrorForceKill pid \<in> set (snd (KillAll env))) \<and>
         (\<forall>pid \<in> set (signalled env SIGTERM output) \<inter> set (signalled env SIGKILL (rescanned env)).
            \<exists>a b c d. filter is_action (snd (KillAll env)) =
              a @ Signal pid SIGTERM # b @ [Sleep 2, Pgrep] @ c @ Signal pid SIGKILL # d)"
proof -
  note k = KillAll_found [OF assms]
  have none: "fst (KillAll env) = None" by (simp add: k)
  have acts: "filter is_action (snd (KillAll env)) =
           Pgrep # map (\<lambda>pid. Signal pid SIGTERM) (signalled env SIGTERM output) @
           [Sleep 2, Pgrep] @
           map (\<lambda>pid. Signal pid SIGKILL) (signalled env SIGKILL (rescanned env))"
    by (simp add: k actions_terminate_each actions_force_kill_each signalled_def pids_of_def
          is_action_def Fields_def map_filter_simps)
  have rep1: "ErrorTerminate pid \<in> set (snd (KillAll env))"
    if "pid \<in> set (signalled env SIGTERM output)" "\<not> signal_ok env pid SIGTERM" for pid
    using terminate_each_reports [of pid env "Fields output"] that
    by (simp add: k signalled_def pids_of_def)
  have rep2: "ErrorForceKill pid \<in> set (snd (KillAll env))"
    if "pid \<in> set (signalled env SIGKILL (rescanned env))" "\<not> signal_ok env pid SIGKILL" for pid
  proof -
    from that(1) have "rescanned env \<noteq> []"
      by (auto simp: signalled_def pids_of_def Fields_def map_filter_simps)
    with force_kill_each_reports [of pid env "Fields (rescanned env)"] that show ?thesis
      by (simp add: k signalled_def pids_of_def)
  qed
  have both: "\<exists>a b c d. filter is_action (snd (KillAll env)) =
              a @ Signal pid SIGTERM # b @ [Sleep 2, Pgrep] @ c @ Signal pid SIGKILL # d"
    if "pid \<in> set (signalled env SIGTERM output) \<inter> set (signalled env SIGKILL (rescanned env))" for pid
  proof -
    from that obtain t1 t2 where t: "signalled env SIGTERM output = t1 @ pid # t2"
      by (auto dest: split_list)
    from that obtain k1 k2 where kk: "signalled env SIGKILL (rescanned env) = k1 @ pid # k2"
      by (auto dest: split_list)
    have "filter is_action (snd (KillAll env)) =
            (Pgrep # map (\<lambda>pid. Signal pid SIGTERM) t1) @ Signal pid SIGTERM #
            map (\<lambda>pid. Signal pid SIGTERM) t2 @ [Sleep 2, Pgrep] @
            map (\<lambda>pid. Signal pid SIGKILL) k1 @ Signal pid SIGKILL # map (\<lambda>pid. Signal pid SIGKILL) k2"
      unfolding acts t kk by simp
    then show ?thesis by blast
  qed
  from none acts rep1 rep2 both show ?thesis by blast
qed

theorem KillAll_terminates_then_kills_witness:
  "fst (KillAll \<lparr>first_scan = Found (''4711'' @ [CHR 0x0A] @ ''4712'' @ [CHR 0x0A]),
                 second_scan = Found (''4712'' @ [CHR 0x0A]),
                 find_ok = (\<lambda>pid sig. True),
                 signal_ok = (\<lambda>pid sig. pid \<noteq> 4711)\<rparr>) = None \<and>
   filter is_action
     (snd (KillAll \<lparr>first_scan = Found (''4711'' @ [CHR 0x0A] @ ''4712'' @ [CHR 0x0A]),
                    second_scan = Found (''4712'' @ [CHR 0x0A]),
                    find_ok = (\<lambda>pid sig. True),
                    signal_ok = (\<lambda>pid sig. pid \<noteq> 4711)\<rparr>)) =
     [Pgrep, Signal 4711 SIGTERM, Signal 4712 SIGTERM, Sleep 2, Pgrep, Signal 4712 SIGKILL] \<and>
   ErrorTerminate 4711 \<in>
     set (snd (KillAll \<lparr>first_scan = Found (''4711'' @ [CHR 0x0A] @ ''4712'' @ [CHR 0x0A]),
                        second_scan = Found (''4712'' @ [CHR 0x0A]),
                        find_ok = (\<lambda>pid sig. True),
                        signal_ok = (\<lambda>pid sig. pid \<noteq> 4711)\<rparr>))"
proof -
  let ?out = "''4711'' @ [CHR 0x0A] @ ''4712'' @ [CHR 0x0A]"
  let ?env = "\<lparr>first_scan = Found ?out, second_scan = Found (''4712'' @ [CHR 0x0A]),
               find_ok = (\<lambda>pid sig. True), signal_ok = (\<lambda>pid sig. pid \<noteq> (4711::int))\<rparr>"
  have scan: "first_scan ?env = Found ?out" by simp
  have f1: "Fields ?out = [''4711'', ''4712'']"
    by (simp add: Fields_def isSpace_def)
  then have fields: "Fields ?out \<noteq> []" by simp
  have f2: "Fields (rescanned ?env) = [''4712'']"
    by (simp add: rescanned_def Fields_def isSpace_def)
  have a1: "Atoi ''4711'' = Some 4711" and a2: "Atoi ''4712'' = Some 4712"
    by (simp_all add: Atoi_def Let_def digit_value_def in_range_def)
  have s1: "signalled ?env SIGTERM ?out = [4711, 4712]"
    unfolding signalled_def pids_of_def f1 by (simp add: map_filter_simps a1 a2)
  have s2: "signalled ?env SIGKILL (rescanned ?env) = [4712]"
    unfolding signalled_def pids_of_def f2 by (simp add: map_filter_simps a2)
  note main = KillAll_terminates_then_kills [OF scan fields]
  from main have "fst (KillAll ?env) = None" by blast
  moreover from main have "filter is_action (snd (KillAll ?env)) =
           Pgrep # map (\<lambda>pid. Signal pid SIGTERM) (signalled ?env SIGTERM ?out) @
           [Sleep 2, Pgrep] @
           map (\<lambda>pid. Signal pid SIGKILL) (signalled ?env SIGKILL (rescanned ?env))"
    by blast
  then have "filter is_action (snd (KillAll ?env)) =
     [Pgrep, Signal 4711 SIGTERM, Signal 4712 SIGTERM, Sleep 2, Pgrep, Signal 4712 SIGKILL]"
    unfolding s1 s2 by simp
  moreover from main have "\<forall>pid \<in> set (signalled ?env SIGTERM ?out).
            \<not> signal_ok ?env pid SIGTERM \<longrightarrow> ErrorTerminate pid \<in> set (snd (KillAll ?env))"
    by blast
  then have "ErrorTerminate 4711 \<in> set (snd (KillAll ?env))"
    unfolding s1 by simp
  ultimately show ?thesis by blast
qed

end
